theory Spec2Isabelle
  imports Main
begin

section \<open>Strings and characters\<close>

text \<open>
  The translator works on Python \<open>str\<close> values: sequences of Unicode code points. A
  character is modelled as its code point, a string as the list of its code points.
  String literals of the source are written \<open>lit ''...''\<close>.
\<close>

type_synonym pystr = "nat list"

definition lit :: "string \<Rightarrow> pystr" where
  "lit s = map of_char s"

text \<open>
  The predicates \<open>str.isspace\<close>, \<open>str.isalpha\<close>, \<open>str.isdecimal\<close>, \<open>str.isdigit\<close>,
  \<open>str.isnumeric\<close> and the mapping \<open>str.lower\<close> are Python built-ins that read the
  interpreter's Unicode character database. For the code points below 256 their values
  are written out here. Above 255 the database is not part of the repository and is taken
  as a parameter: a record of the tables, which every theorem below leaves arbitrary.
  \<open>u_decimal\<close> is the decimal digit value of a code point, when it has one; \<open>int\<close> reads
  it, and \<open>str.isdecimal\<close> holds for exactly the code points that have one.
\<close>

record unicode =
  u_isspace :: "nat \<Rightarrow> bool"
  u_isalpha :: "nat \<Rightarrow> bool"
  u_decimal :: "nat \<Rightarrow> nat option"
  u_isdigit :: "nat \<Rightarrow> bool"
  u_isnumeric :: "nat \<Rightarrow> bool"
  u_lower :: "nat \<Rightarrow> pystr"

definition isspace :: "unicode \<Rightarrow> nat \<Rightarrow> bool" where
  "isspace U c =
     (if c < 256 then (9 \<le> c \<and> c \<le> 13) \<or> (28 \<le> c \<and> c \<le> 32) \<or> c = 133 \<or> c = 160
      else u_isspace U c)"

definition isalpha :: "unicode \<Rightarrow> nat \<Rightarrow> bool" where
  "isalpha U c =
     (if c < 256 then (65 \<le> c \<and> c \<le> 90) \<or> (97 \<le> c \<and> c \<le> 122) \<or> c = 170 \<or> c = 181
        \<or> c = 186 \<or> (192 \<le> c \<and> c \<le> 214) \<or> (216 \<le> c \<and> c \<le> 246) \<or> 248 \<le> c
      else u_isalpha U c)"

definition decimal_value :: "unicode \<Rightarrow> nat \<Rightarrow> nat option" where
  "decimal_value U c =
     (if c < 256 then (if 48 \<le> c \<and> c \<le> 57 then Some (c - 48) else None)
      else u_decimal U c)"

definition isdecimal :: "unicode \<Rightarrow> nat \<Rightarrow> bool" where
  "isdecimal U c = (decimal_value U c \<noteq> None)"

definition isdigit :: "unicode \<Rightarrow> nat \<Rightarrow> bool" where
  "isdigit U c =
     (if c < 256 then (48 \<le> c \<and> c \<le> 57) \<or> c = 178 \<or> c = 179 \<or> c = 185
      else u_isdigit U c)"

definition isnumeric :: "unicode \<Rightarrow> nat \<Rightarrow> bool" where
  "isnumeric U c =
     (if c < 256 then (48 \<le> c \<and> c \<le> 57) \<or> c = 178 \<or> c = 179 \<or> c = 185
        \<or> (188 \<le> c \<and> c \<le> 190)
      else u_isnumeric U c)"

text \<open>\<open>str.isalnum\<close> is by definition the disjunction of the four predicates.\<close>

definition isalnum :: "unicode \<Rightarrow> nat \<Rightarrow> bool" where
  "isalnum U c = (isalpha U c \<or> isdecimal U c \<or> isdigit U c \<or> isnumeric U c)"

definition lower :: "unicode \<Rightarrow> nat \<Rightarrow> pystr" where
  "lower U c =
     (if c < 256 then
        (if (65 \<le> c \<and> c \<le> 90) \<or> (192 \<le> c \<and> c \<le> 214) \<or> (216 \<le> c \<and> c \<le> 222)
         then [c + 32] else [c])
      else u_lower U c)"

text \<open>
  On a string the predicates hold when the string is not empty and every character
  satisfies them; \<open>lower\<close> maps every character.
\<close>

definition str_isspace :: "unicode \<Rightarrow> pystr \<Rightarrow> bool" where
  "str_isspace U s = (s \<noteq> [] \<and> list_all (isspace U) s)"

definition str_isalpha :: "unicode \<Rightarrow> pystr \<Rightarrow> bool" where
  "str_isalpha U s = (s \<noteq> [] \<and> list_all (isalpha U) s)"

definition str_isalnum :: "unicode \<Rightarrow> pystr \<Rightarrow> bool" where
  "str_isalnum U s = (s \<noteq> [] \<and> list_all (isalnum U) s)"

definition str_isdigit :: "unicode \<Rightarrow> pystr \<Rightarrow> bool" where
  "str_isdigit U s = (s \<noteq> [] \<and> list_all (isdigit U) s)"

definition str_lower :: "unicode \<Rightarrow> pystr \<Rightarrow> pystr" where
  "str_lower U s = concat (map (lower U) s)"

text \<open>\<open>s in t\<close> on strings: \<open>s\<close> occurs in \<open>t\<close> as a contiguous substring.\<close>

definition str_in :: "pystr \<Rightarrow> pystr \<Rightarrow> bool" where
  "str_in s t = list_ex (\<lambda>k. take (length s) (drop k t) = s) [0 ..< length t + 1]"

text \<open>\<open>sep.join(parts)\<close>.\<close>

fun join :: "pystr \<Rightarrow> pystr list \<Rightarrow> pystr" where
  "join sep [] = []"
| "join sep [p] = p"
| "join sep (p # q # ps) = p @ sep @ join sep (q # ps)"

section \<open>Lexer\<close>

datatype TokenKind =
    IDENT | HEX | LBRACE | RBRACE | SEMI | EQUAL | LPAREN | RPAREN | COMMA
  | KW_ARRAY | KW_VAR | QMARK | LBRACKET | RBRACKET | EOF

text \<open>
  A token. The end-of-input token carries the value \<open>None\<close> in the source; no code reads
  it, and it is the empty string here.
\<close>

record Token =
  tok_kind :: TokenKind
  tok_value :: pystr
  tok_line :: nat
  tok_col :: nat

definition mkToken :: "TokenKind \<Rightarrow> pystr \<Rightarrow> nat \<Rightarrow> nat \<Rightarrow> Token" where
  "mkToken k v l c = \<lparr>tok_kind = k, tok_value = v, tok_line = l, tok_col = c\<rparr>"

text \<open>
  The exceptions of the program, with the data their messages carry: a position is a
  line and a column. \<open>ValueError\<close> is what \<open>int(tok.value, 16)\<close> and \<open>str(v)\<close> raise,
  \<open>IndexError\<close> what \<open>self.tokens[self.i]\<close> raises past the end. \<open>OutOfFuel\<close> is no
  outcome of the program: the parser of this theory returns it when its step budget is
  used up.
\<close>

datatype lexer_error =
    NameExpected nat nat
  | HexExpected nat nat
  | HexDigitsExpected nat nat
  | UnexpectedChar pystr nat nat

datatype parse_error =
    Expected TokenKind nat nat TokenKind
  | ValueExpected nat nat TokenKind

datatype eval_error =
    DuplicateConstant pystr
  | UnknownConstant pystr

datatype error =
    LexerError lexer_error
  | ParseError parse_error
  | EvalError eval_error
  | ValueError
  | IndexError
  | OutOfFuel

record Lexer =
  lx_text :: pystr
  lx_i :: nat
  lx_line :: nat
  lx_col :: nat

definition Lexer_init :: "pystr \<Rightarrow> Lexer" where
  "Lexer_init t = \<lparr>lx_text = t, lx_i = 0, lx_line = 1, lx_col = 1\<rparr>"

text \<open>\<open>peek\<close> is only called with \<open>n = 1\<close> and \<open>n = 2\<close>.\<close>

definition peek :: "Lexer \<Rightarrow> nat \<Rightarrow> pystr" where
  "peek lx n =
     (let pos = lx_i lx + n - 1
      in if pos \<ge> length (lx_text lx) then [] else [lx_text lx ! pos])"

fun advance :: "Lexer \<Rightarrow> nat \<Rightarrow> Lexer" where
  "advance lx 0 = lx"
| "advance lx (Suc n) =
     (if lx_i lx \<ge> length (lx_text lx) then lx
      else let ch = lx_text lx ! lx_i lx;
               lx1 = lx\<lparr>lx_i := lx_i lx + 1\<rparr>
           in advance (if ch = 10 then lx1\<lparr>lx_line := lx_line lx + 1, lx_col := 1\<rparr>
                       else lx1\<lparr>lx_col := lx_col lx + 1\<rparr>) n)"

lemma advance_one:
  "advance lx (Suc 0) =
     (if lx_i lx \<ge> length (lx_text lx) then lx
      else if lx_text lx ! lx_i lx = 10
           then lx\<lparr>lx_i := lx_i lx + 1, lx_line := lx_line lx + 1, lx_col := 1\<rparr>
           else lx\<lparr>lx_i := lx_i lx + 1, lx_col := lx_col lx + 1\<rparr>)"
  by (simp add: Let_def)

lemma advance_at_end: "lx_i lx \<ge> length (lx_text lx) \<Longrightarrow> advance lx n = lx"
  by (cases n) simp_all

lemma advance_Suc: "advance lx (Suc n) = advance (advance lx (Suc 0)) n"
  by (simp add: Let_def advance_at_end)

declare advance.simps(2) [simp del]

lemma advance_text [simp]: "lx_text (advance lx n) = lx_text lx"
proof (induction n arbitrary: lx)
  case 0
  then show ?case by simp
next
  case (Suc n)
  have "lx_text (advance lx (Suc 0)) = lx_text lx"
    by (simp add: advance_one)
  then show ?case
    using Suc [of "advance lx (Suc 0)"] by (simp add: advance_Suc [of lx n])
qed

lemma peek_nonempty: "peek lx (Suc 0) \<noteq> [] \<longleftrightarrow> lx_i lx < length (lx_text lx)"
  by (simp add: peek_def Let_def)

lemma advance_one_i:
  "lx_i lx < length (lx_text lx) \<Longrightarrow> lx_i (advance lx (Suc 0)) = lx_i lx + 1"
  by (simp add: advance_one)

lemma advance_i_mono: "lx_i lx \<le> lx_i (advance lx n)"
proof (induction n arbitrary: lx)
  case 0
  then show ?case by simp
next
  case (Suc n)
  have "lx_i lx \<le> lx_i (advance lx (Suc 0))"
    by (simp add: advance_one)
  also have "\<dots> \<le> lx_i (advance (advance lx (Suc 0)) n)"
    by (rule Suc)
  finally show ?case
    by (simp add: advance_Suc [of lx n])
qed

lemma advance_i_strict:
  "lx_i lx < length (lx_text lx) \<Longrightarrow> lx_i lx < lx_i (advance lx (Suc n))"
proof -
  assume a: "lx_i lx < length (lx_text lx)"
  have "lx_i (advance lx (Suc 0)) = lx_i lx + 1"
    using a by (rule advance_one_i)
  moreover have "lx_i (advance lx (Suc 0)) \<le> lx_i (advance (advance lx (Suc 0)) n)"
    by (rule advance_i_mono)
  ultimately show ?thesis
    by (simp add: advance_Suc [of lx n])
qed

function skip_ws :: "unicode \<Rightarrow> Lexer \<Rightarrow> Lexer" where
  "skip_ws U lx =
     (let ch = peek lx 1
      in if ch \<noteq> [] \<and> str_isspace U ch then skip_ws U (advance lx 1) else lx)"
  by pat_completeness auto
termination
  by (relation "measure (\<lambda>(U, lx). length (lx_text lx) - lx_i lx)")
     (auto simp: peek_def Let_def advance_one split: if_splits)

declare skip_ws.simps [simp del]

text \<open>The loop of \<open>lex_ident_or_kw\<close>, with the characters read so far.\<close>

function ident_loop :: "unicode \<Rightarrow> Lexer \<Rightarrow> pystr \<Rightarrow> pystr \<times> Lexer" where
  "ident_loop U lx s =
     (let ch = peek lx 1
      in if ch \<noteq> [] \<and> str_isalnum U ch then ident_loop U (advance lx 1) (s @ ch)
         else (s, lx))"
  by pat_completeness auto
termination
  by (relation "measure (\<lambda>(U, lx, s). length (lx_text lx) - lx_i lx)")
     (auto simp: peek_def Let_def advance_one split: if_splits)

declare ident_loop.simps [simp del]

definition lex_ident_or_kw :: "unicode \<Rightarrow> Lexer \<Rightarrow> error + (Token \<times> Lexer)" where
  "lex_ident_or_kw U lx =
     (let start_line = lx_line lx; start_col = lx_col lx; ch = peek lx 1
      in if ch = [] \<or> \<not> str_isalpha U ch
         then Inl (LexerError (NameExpected (lx_line lx) (lx_col lx)))
         else let (word, lx1) = ident_loop U lx []
              in if word = lit ''array'' then Inr (mkToken KW_ARRAY word start_line start_col, lx1)
                 else if word = lit ''var'' then Inr (mkToken KW_VAR word start_line start_col, lx1)
                 else Inr (mkToken IDENT word start_line start_col, lx1))"

text \<open>The loop of \<open>lex_hex\<close>, with the digits read so far.\<close>

function hex_loop :: "unicode \<Rightarrow> Lexer \<Rightarrow> pystr \<Rightarrow> pystr \<times> Lexer" where
  "hex_loop U lx digits =
     (let ch = peek lx 1
      in if ch \<noteq> [] \<and> (str_isdigit U ch \<or> str_in (str_lower U ch) (lit ''abcdef''))
         then hex_loop U (advance lx 1) (digits @ ch)
         else (digits, lx))"
  by pat_completeness auto
termination
  by (relation "measure (\<lambda>(U, lx, s). length (lx_text lx) - lx_i lx)")
     (auto simp: peek_def Let_def advance_one split: if_splits)

declare hex_loop.simps [simp del]

definition lex_hex :: "unicode \<Rightarrow> Lexer \<Rightarrow> error + (Token \<times> Lexer)" where
  "lex_hex U lx =
     (let start_line = lx_line lx; start_col = lx_col lx
      in if peek lx 1 \<noteq> lit ''0'' \<or> str_lower U (peek lx 2) \<noteq> lit ''x''
         then Inl (LexerError (HexExpected (lx_line lx) (lx_col lx)))
         else let (digits, lx2) = hex_loop U (advance lx 2) []
              in if digits = [] then Inl (LexerError (HexDigitsExpected (lx_line lx2) (lx_col lx2)))
                 else Inr (mkToken HEX digits start_line start_col, lx2))"

text \<open>The dictionary \<open>single\<close> of \<open>next_token\<close>.\<close>

definition single :: "pystr \<Rightarrow> TokenKind option" where
  "single ch =
     map_of [(lit ''{'', LBRACE), (lit ''}'', RBRACE), (lit '';'', SEMI), (lit ''='', EQUAL),
             (lit ''('', LPAREN), (lit '')'', RPAREN), (lit '','', COMMA), (lit ''?'', QMARK),
             (lit ''['', LBRACKET), (lit '']'', RBRACKET)] ch"

definition next_token :: "unicode \<Rightarrow> Lexer \<Rightarrow> error + (Token \<times> Lexer)" where
  "next_token U lx0 =
     (let lx = skip_ws U lx0; ch = peek lx 1
      in if ch = [] then Inr (mkToken EOF [] (lx_line lx) (lx_col lx), lx)
         else case single ch of
           Some k \<Rightarrow> Inr (mkToken k ch (lx_line lx) (lx_col lx), advance lx 1)
         | None \<Rightarrow>
             if ch = lit ''0'' \<and> str_lower U (peek lx 2) = lit ''x'' then lex_hex U lx
             else if str_isalpha U ch then lex_ident_or_kw U lx
             else Inl (LexerError (UnexpectedChar ch (lx_line lx) (lx_col lx))))"


text \<open>
  Every call of \<open>next_token\<close> that returns a token other than end of input moves the
  position forward and leaves the text alone: the measure of the loop of \<open>tokenize\<close>.
\<close>

lemma skip_ws_text [simp]: "lx_text (skip_ws U lx) = lx_text lx"
  by (induction U lx rule: skip_ws.induct) (subst skip_ws.simps, simp add: Let_def)

lemma skip_ws_i_mono: "lx_i lx \<le> lx_i (skip_ws U lx)"
proof (induction U lx rule: skip_ws.induct)
  case (1 U lx)
  show ?case
  proof (cases "peek lx 1 \<noteq> [] \<and> str_isspace U (peek lx 1)")
    case True
    then have "lx_i lx \<le> lx_i (advance lx 1)"
      using advance_i_mono by blast
    also have "\<dots> \<le> lx_i (skip_ws U (advance lx 1))"
      using "1.IH" True by simp
    finally show ?thesis
      using True by (subst skip_ws.simps) (simp add: Let_def)
  next
    case False
    then show ?thesis by (subst skip_ws.simps) (auto simp: Let_def)
  qed
qed

lemma ident_loop_text: "ident_loop U lx s = (w, lx1) \<Longrightarrow> lx_text lx1 = lx_text lx"
proof (induction U lx s rule: ident_loop.induct)
  case (1 U lx s)
  then show ?case
    by (subst (asm) (2) ident_loop.simps) (auto simp: Let_def split: if_splits)
qed

lemma ident_loop_i_mono: "ident_loop U lx s = (w, lx1) \<Longrightarrow> lx_i lx \<le> lx_i lx1"
proof (induction U lx s rule: ident_loop.induct)
  case (1 U lx s)
  show ?case
  proof (cases "peek lx 1 \<noteq> [] \<and> str_isalnum U (peek lx 1)")
    case True
    then have "ident_loop U (advance lx 1) (s @ peek lx 1) = (w, lx1)"
      using "1.prems" by (subst (asm) ident_loop.simps) (simp add: Let_def)
    then have "lx_i (advance lx 1) \<le> lx_i lx1"
      using "1.IH" True by simp
    moreover have "lx_i lx \<le> lx_i (advance lx 1)"
      by (rule advance_i_mono)
    ultimately show ?thesis by simp
  next
    case False
    then show ?thesis
      using "1.prems" by (subst (asm) ident_loop.simps) (auto simp: Let_def)
  qed
qed

lemma hex_loop_text: "hex_loop U lx s = (w, lx1) \<Longrightarrow> lx_text lx1 = lx_text lx"
proof (induction U lx s rule: hex_loop.induct)
  case (1 U lx s)
  then show ?case
    by (subst (asm) (2) hex_loop.simps) (auto simp: Let_def split: if_splits)
qed

lemma hex_loop_i_mono: "hex_loop U lx s = (w, lx1) \<Longrightarrow> lx_i lx \<le> lx_i lx1"
proof (induction U lx s rule: hex_loop.induct)
  case (1 U lx s)
  let ?c = "peek lx 1 \<noteq> [] \<and> (str_isdigit U (peek lx 1) \<or> str_in (str_lower U (peek lx 1)) (lit ''abcdef''))"
  show ?case
  proof (cases ?c)
    case True
    then have "hex_loop U (advance lx 1) (s @ peek lx 1) = (w, lx1)"
      using "1.prems" by (subst (asm) hex_loop.simps) (simp add: Let_def)
    then have "lx_i (advance lx 1) \<le> lx_i lx1"
      using "1.IH" True by simp
    moreover have "lx_i lx \<le> lx_i (advance lx 1)"
      by (rule advance_i_mono)
    ultimately show ?thesis by simp
  next
    case False
    then show ?thesis
      using "1.prems" by (subst (asm) hex_loop.simps) (auto simp: Let_def)
  qed
qed

lemma isalpha_isalnum: "str_isalpha U ch \<Longrightarrow> str_isalnum U ch"
  by (auto simp: str_isalpha_def str_isalnum_def isalnum_def list_all_iff)

lemma lex_ident_or_kw_progress:
  assumes "lex_ident_or_kw U lx = Inr (tok, lx1)"
  shows "lx_text lx1 = lx_text lx \<and> lx_i lx < lx_i lx1"
proof -
  from assms have ch: "peek lx 1 \<noteq> []" "str_isalpha U (peek lx 1)"
    by (auto simp: lex_ident_or_kw_def Let_def split: if_splits)
  obtain w l where loop: "ident_loop U lx [] = (w, l)"
    by (cases "ident_loop U lx []")
  with assms ch have l: "l = lx1"
    by (auto simp: lex_ident_or_kw_def Let_def split: if_splits)
  from ch have "ident_loop U (advance lx 1) ([] @ peek lx 1) = (w, lx1)"
    using loop l isalpha_isalnum [OF ch(2)]
    by (subst (asm) ident_loop.simps) (simp add: Let_def)
  then have "lx_i (advance lx 1) \<le> lx_i lx1"
    by (rule ident_loop_i_mono)
  moreover have "lx_i lx < lx_i (advance lx 1)"
    using ch(1) advance_i_strict [of lx 0] by (simp add: peek_nonempty)
  ultimately show ?thesis
    using ident_loop_text [OF loop] l by simp
qed

lemma lex_hex_progress:
  assumes "lex_hex U lx = Inr (tok, lx1)"
  shows "lx_text lx1 = lx_text lx \<and> lx_i lx < lx_i lx1"
proof -
  from assms have ch: "peek lx 1 = lit ''0''"
    by (auto simp: lex_hex_def Let_def split: if_splits)
  obtain w l where loop: "hex_loop U (advance lx 2) [] = (w, l)"
    by (cases "hex_loop U (advance lx 2) []")
  with assms have l: "l = lx1"
    by (auto simp: lex_hex_def Let_def split: if_splits)
  have "lx_i (advance lx 2) \<le> lx_i lx1"
    using loop l hex_loop_i_mono by blast
  moreover have "lx_i lx < lx_i (advance lx (Suc 1))"
    using ch peek_nonempty [of lx] by (intro advance_i_strict) (simp add: lit_def)
  ultimately show ?thesis
    using hex_loop_text [OF loop] l by (simp add: numeral_2_eq_2)
qed

lemma next_token_progress:
  assumes "next_token U lx = Inr (tok, lx1)" and "tok_kind tok \<noteq> EOF"
  shows "lx_text lx1 = lx_text lx \<and> lx_i lx < lx_i lx1"
proof -
  let ?l = "skip_ws U lx"
  have ne: "peek ?l 1 \<noteq> []"
    using assms by (auto simp: next_token_def Let_def mkToken_def split: if_splits)
  have "lx_text lx1 = lx_text ?l \<and> lx_i ?l < lx_i lx1"
  proof (cases "single (peek ?l 1)")
    case (Some k)
    then have "lx1 = advance ?l 1"
      using assms ne by (simp add: next_token_def Let_def)
    then show ?thesis
      using ne advance_i_strict [of ?l 0] by (simp add: peek_nonempty)
  next
    case None
    then show ?thesis
      using assms ne lex_hex_progress [of U ?l tok lx1] lex_ident_or_kw_progress [of U ?l tok lx1]
      by (auto simp: next_token_def Let_def split: if_splits)
  qed
  then show ?thesis
    using skip_ws_i_mono [of lx U] by simp
qed

text \<open>The loop of \<open>tokenize\<close>, with the tokens appended so far.\<close>

function tokenize_loop :: "unicode \<Rightarrow> Lexer \<Rightarrow> Token list \<Rightarrow> error + Token list" where
  "tokenize_loop U lx tokens =
     (case next_token U lx of
        Inl e \<Rightarrow> Inl e
      | Inr (tok, lx1) \<Rightarrow>
          if tok_kind tok = EOF then Inr (tokens @ [tok])
          else tokenize_loop U lx1 (tokens @ [tok]))"
  by pat_completeness auto
termination
proof (relation "measure (\<lambda>(U, lx, tokens). length (lx_text lx) - lx_i lx)")
  show "wf (measure (\<lambda>(U, lx, tokens). length (lx_text lx) - lx_i lx))"
    by simp
next
  fix U lx tokens x2 tok lx1
  assume a: "next_token U lx = Inr x2" "(tok, lx1) = x2" "tok_kind tok \<noteq> EOF"
  then have p: "lx_text lx1 = lx_text lx \<and> lx_i lx < lx_i lx1"
    using next_token_progress [of U lx tok lx1] by simp
  have "lx_i (skip_ws U lx) < length (lx_text lx)"
    using a by (auto simp: next_token_def Let_def mkToken_def peek_def split: if_splits)
  then have "lx_i lx < length (lx_text lx)"
    using skip_ws_i_mono [of lx U] by simp
  moreover from p have "lx_text lx1 = lx_text lx" and "lx_i lx < lx_i lx1"
    by simp_all
  ultimately show "((U, lx1, tokens @ [tok]), (U, lx, tokens))
        \<in> measure (\<lambda>(U, lx, tokens). length (lx_text lx) - lx_i lx)"
    by (simp add: diff_less_mono2)
qed

declare tokenize_loop.simps [simp del]

definition tokenize :: "unicode \<Rightarrow> pystr \<Rightarrow> error + Token list" where
  "tokenize U src = tokenize_loop U (Lexer_init src) []"


section \<open>Abstract syntax\<close>

datatype node =
    NumberNode int
  | ArrayNode "node list"
  | MapNode "DictItem list"
  | ConstRefNode pystr
and DictItem = DictItemNode pystr node

datatype ConstDecl = ConstDeclNode pystr node

datatype Program = ProgramNode "ConstDecl list" node

section \<open>Parser\<close>

text \<open>Sequencing of computations that may raise: the first error ends the run.\<close>

definition bind :: "error + 'a \<Rightarrow> ('a \<Rightarrow> error + 'b) \<Rightarrow> error + 'b" where
  "bind m f = (case m of Inl e \<Rightarrow> Inl e | Inr x \<Rightarrow> f x)"

text \<open>
  \<open>int(s, 16)\<close> on a digit string of the lexer. Python reads the ASCII hexadecimal
  digits in either case and every Unicode decimal digit by its value, and raises
  \<open>ValueError\<close> on any other character and on the empty string. (A sign, surrounding
  whitespace, underscores and a \<open>0x\<close> prefix, which \<open>int\<close> also accepts, are not
  modelled: the lexer's digit strings hold none.)
\<close>

definition hex_digit_value :: "unicode \<Rightarrow> nat \<Rightarrow> nat option" where
  "hex_digit_value U c =
     (if 48 \<le> c \<and> c \<le> 57 then Some (c - 48)
      else if 97 \<le> c \<and> c \<le> 102 then Some (c - 87)
      else if 65 \<le> c \<and> c \<le> 70 then Some (c - 55)
      else decimal_value U c)"

fun int16_from :: "unicode \<Rightarrow> int \<Rightarrow> pystr \<Rightarrow> error + int" where
  "int16_from U acc [] = Inr acc"
| "int16_from U acc (c # cs) =
     (case hex_digit_value U c of
        None \<Rightarrow> Inl ValueError
      | Some d \<Rightarrow> int16_from U (16 * acc + int d) cs)"

definition int16 :: "unicode \<Rightarrow> pystr \<Rightarrow> error + int" where
  "int16 U s = (if s = [] then Inl ValueError else int16_from U 0 s)"

text \<open>
  The parser state is the token list and the index \<open>i\<close> into it; the list never changes,
  so the functions take it and the index and return the new index with their result.
\<close>

definition Parser_peek :: "Token list \<Rightarrow> nat \<Rightarrow> error + Token" where
  "Parser_peek tokens i = (if i < length tokens then Inr (tokens ! i) else Inl IndexError)"

definition Parser_advance :: "Token list \<Rightarrow> nat \<Rightarrow> error + (Token \<times> nat)" where
  "Parser_advance tokens i =
     (if i < length tokens then Inr (tokens ! i, i + 1) else Inl IndexError)"

definition expect :: "Token list \<Rightarrow> nat \<Rightarrow> TokenKind \<Rightarrow> error + (Token \<times> nat)" where
  "expect tokens i kind =
     bind (Parser_peek tokens i) (\<lambda>tok.
       if tok_kind tok \<noteq> kind
       then Inl (ParseError (Expected kind (tok_line tok) (tok_col tok) (tok_kind tok)))
       else Parser_advance tokens i)"

definition parse_const_ref :: "Token list \<Rightarrow> nat \<Rightarrow> error + (node \<times> nat)" where
  "parse_const_ref tokens i =
     bind (expect tokens i QMARK) (\<lambda>(_, i1).
     bind (expect tokens i1 LBRACKET) (\<lambda>(_, i2).
     bind (expect tokens i2 IDENT) (\<lambda>(name_tok, i3).
     bind (expect tokens i3 RBRACKET) (\<lambda>(_, i4).
     Inr (ConstRefNode (tok_value name_tok), i4)))))"

text \<open>
  The recursive descent. The functions call each other through the state they return,
  so they are defined by recursion on a step budget: every call and every loop iteration
  uses one step, and a run that has none left returns \<open>OutOfFuel\<close>. \<open>parse_program\<close>
  below starts with a budget that is never used up (lemma \<open>parse_program_fuel\<close>).
  \<open>parse_array_loop\<close> and \<open>parse_dict_loop\<close> are the \<open>while\<close> loops of \<open>parse_array\<close>
  and \<open>parse_dict\<close>, with the items appended so far.
\<close>

function parse_value :: "unicode \<Rightarrow> nat \<Rightarrow> Token list \<Rightarrow> nat \<Rightarrow> error + (node \<times> nat)"
and parse_array :: "unicode \<Rightarrow> nat \<Rightarrow> Token list \<Rightarrow> nat \<Rightarrow> error + (node \<times> nat)"
and parse_array_loop ::
      "unicode \<Rightarrow> nat \<Rightarrow> Token list \<Rightarrow> nat \<Rightarrow> node list \<Rightarrow> error + (node list \<times> nat)"
and parse_dict :: "unicode \<Rightarrow> nat \<Rightarrow> Token list \<Rightarrow> nat \<Rightarrow> error + (node \<times> nat)"
and parse_dict_loop ::
      "unicode \<Rightarrow> nat \<Rightarrow> Token list \<Rightarrow> nat \<Rightarrow> DictItem list \<Rightarrow> error + (DictItem list \<times> nat)"
where
  "parse_value U 0 tokens i = Inl OutOfFuel"
| "parse_value U (Suc n) tokens i =
     bind (Parser_peek tokens i) (\<lambda>t.
       if tok_kind t = HEX then
         bind (Parser_advance tokens i) (\<lambda>(tok, i1).
         bind (int16 U (tok_value tok)) (\<lambda>v.
         Inr (NumberNode v, i1)))
       else if tok_kind t = KW_ARRAY then parse_array U n tokens i
       else if tok_kind t = LBRACE then parse_dict U n tokens i
       else if tok_kind t = QMARK then parse_const_ref tokens i
       else Inl (ParseError (ValueExpected (tok_line t) (tok_col t) (tok_kind t))))"
| "parse_array U 0 tokens i = Inl OutOfFuel"
| "parse_array U (Suc n) tokens i =
     bind (expect tokens i KW_ARRAY) (\<lambda>(_, i1).
     bind (expect tokens i1 LPAREN) (\<lambda>(_, i2).
     bind (Parser_peek tokens i2) (\<lambda>t.
     bind (if tok_kind t \<noteq> RPAREN
           then bind (parse_value U n tokens i2) (\<lambda>(v, i3).
                parse_array_loop U n tokens i3 [v])
           else Inr ([], i2)) (\<lambda>(items, i4).
     bind (expect tokens i4 RPAREN) (\<lambda>(_, i5).
     Inr (ArrayNode items, i5))))))"
| "parse_array_loop U 0 tokens i items = Inl OutOfFuel"
| "parse_array_loop U (Suc n) tokens i items =
     bind (Parser_peek tokens i) (\<lambda>t.
       if tok_kind t = COMMA then
         bind (Parser_advance tokens i) (\<lambda>(_, i1).
         bind (parse_value U n tokens i1) (\<lambda>(v, i2).
         parse_array_loop U n tokens i2 (items @ [v])))
       else Inr (items, i))"
| "parse_dict U 0 tokens i = Inl OutOfFuel"
| "parse_dict U (Suc n) tokens i =
     bind (expect tokens i LBRACE) (\<lambda>(_, i1).
     bind (parse_dict_loop U n tokens i1 []) (\<lambda>(items, i2).
     bind (expect tokens i2 RBRACE) (\<lambda>(_, i3).
     Inr (MapNode items, i3))))"
| "parse_dict_loop U 0 tokens i items = Inl OutOfFuel"
| "parse_dict_loop U (Suc n) tokens i items =
     bind (Parser_peek tokens i) (\<lambda>t.
       if tok_kind t \<noteq> RBRACE then
         bind (expect tokens i IDENT) (\<lambda>(key_tok, i1).
         bind (expect tokens i1 EQUAL) (\<lambda>(_, i2).
         bind (parse_value U n tokens i2) (\<lambda>(val, i3).
         bind (expect tokens i3 SEMI) (\<lambda>(_, i4).
         parse_dict_loop U n tokens i4 (items @ [DictItemNode (tok_value key_tok) val])))))
       else Inr (items, i))"
  by pat_completeness auto
termination
  by (relation "measure (\<lambda>x. case x of
         Inl (Inl (U, n, tokens, i)) \<Rightarrow> n
       | Inl (Inr (U, n, tokens, i)) \<Rightarrow> n
       | Inr (Inl (U, n, tokens, i, items)) \<Rightarrow> n
       | Inr (Inr (Inl (U, n, tokens, i))) \<Rightarrow> n
       | Inr (Inr (Inr (U, n, tokens, i, items))) \<Rightarrow> n)") auto

definition parse_const_decl ::
    "unicode \<Rightarrow> nat \<Rightarrow> Token list \<Rightarrow> nat \<Rightarrow> error + (ConstDecl \<times> nat)" where
  "parse_const_decl U n tokens i =
     bind (expect tokens i KW_VAR) (\<lambda>(_, i1).
     bind (expect tokens i1 IDENT) (\<lambda>(ident, i2).
     bind (expect tokens i2 EQUAL) (\<lambda>(_, i3).
     bind (parse_value U n tokens i3) (\<lambda>(val, i4).
     Inr (ConstDeclNode (tok_value ident) val, i4)))))"

text \<open>The \<open>while\<close> loop of \<open>parse_program\<close>, with the declarations appended so far.\<close>

fun parse_consts_loop ::
    "unicode \<Rightarrow> nat \<Rightarrow> Token list \<Rightarrow> nat \<Rightarrow> ConstDecl list \<Rightarrow> error + (ConstDecl list \<times> nat)"
where
  "parse_consts_loop U 0 tokens i consts = Inl OutOfFuel"
| "parse_consts_loop U (Suc n) tokens i consts =
     bind (Parser_peek tokens i) (\<lambda>t.
       if tok_kind t = KW_VAR then
         bind (parse_const_decl U n tokens i) (\<lambda>(d, i1).
         parse_consts_loop U n tokens i1 (consts @ [d]))
       else Inr (consts, i))"

definition parse_program_steps :: "unicode \<Rightarrow> nat \<Rightarrow> Token list \<Rightarrow> error + Program" where
  "parse_program_steps U n tokens =
     bind (parse_consts_loop U n tokens 0 []) (\<lambda>(consts, i).
     bind (parse_value U n tokens i) (\<lambda>(root, i1).
     bind (expect tokens i1 EOF) (\<lambda>_.
     Inr (ProgramNode consts root))))"

definition parse_program :: "unicode \<Rightarrow> Token list \<Rightarrow> error + Program" where
  "parse_program U tokens = parse_program_steps U (length tokens + 2) tokens"

section \<open>Evaluator\<close>

text \<open>
  Evaluated values: Python \<open>int\<close>, \<open>list\<close> and \<open>dict\<close>. A \<open>dict\<close> keeps its keys in
  insertion order, so it is the list of its items in that order, without repeated keys.
  Assigning to a key that is present replaces its value where the key stands; a new key
  goes to the end.
\<close>

datatype val =
    VInt int
  | VList "val list"
  | VDict "(pystr \<times> val) list"

type_synonym pydict = "(pystr \<times> val) list"

definition dict_contains :: "pydict \<Rightarrow> pystr \<Rightarrow> bool" where
  "dict_contains d k = (k \<in> set (map fst d))"

fun dict_set :: "pydict \<Rightarrow> pystr \<Rightarrow> val \<Rightarrow> pydict" where
  "dict_set [] k v = [(k, v)]"
| "dict_set ((k1, v1) # d) k v =
     (if k1 = k then (k1, v) # d else (k1, v1) # dict_set d k v)"

text \<open>
  \<open>eval_value\<close> under the symbol table \<open>consts\<close>. \<open>eval_items\<close> is the list
  comprehension of the array case and \<open>eval_map\<close> the loop of the map case, with the
  dictionary built so far. The last line of the source's \<open>eval_value\<close> (unknown node
  type) cannot be reached: the four node classes are all there are.
\<close>

fun eval_value :: "pydict \<Rightarrow> node \<Rightarrow> error + val"
and eval_items :: "pydict \<Rightarrow> node list \<Rightarrow> error + val list"
and eval_map :: "pydict \<Rightarrow> DictItem list \<Rightarrow> pydict \<Rightarrow> error + pydict"
where
  "eval_value consts (NumberNode v) = Inr (VInt v)"
| "eval_value consts (ArrayNode items) =
     bind (eval_items consts items) (\<lambda>vs. Inr (VList vs))"
| "eval_value consts (MapNode items) =
     bind (eval_map consts items []) (\<lambda>result. Inr (VDict result))"
| "eval_value consts (ConstRefNode name) =
     (if \<not> dict_contains consts name then Inl (EvalError (UnknownConstant name))
      else case map_of consts name of
             Some v \<Rightarrow> Inr v
           | None \<Rightarrow> Inl (EvalError (UnknownConstant name)))"
| "eval_items consts [] = Inr []"
| "eval_items consts (item # items) =
     bind (eval_value consts item) (\<lambda>v.
     bind (eval_items consts items) (\<lambda>vs. Inr (v # vs)))"
| "eval_map consts [] result = Inr result"
| "eval_map consts (DictItemNode key value # items) result =
     bind (eval_value consts value) (\<lambda>v.
     eval_map consts items (dict_set result key v))"

text \<open>The loop of \<open>eval_program\<close> over the declarations, threading \<open>self.consts\<close>.\<close>

fun eval_decls :: "pydict \<Rightarrow> ConstDecl list \<Rightarrow> error + pydict" where
  "eval_decls consts [] = Inr consts"
| "eval_decls consts (ConstDeclNode name value # decls) =
     (if dict_contains consts name then Inl (EvalError (DuplicateConstant name))
      else bind (eval_value consts value) (\<lambda>v.
           eval_decls (dict_set consts name v) decls))"

fun eval_program :: "Program \<Rightarrow> error + val" where
  "eval_program (ProgramNode consts root) =
     bind (eval_decls [] consts) (\<lambda>cs. eval_value cs root)"

section \<open>Emitter\<close>

text \<open>
  \<open>str(v)\<close> of an \<open>int\<close>: its decimal digits, after a minus sign when it is negative.
  The interpreter refuses the conversion with a \<open>ValueError\<close> when the number has more
  digits than \<open>sys.get_int_max_str_digits()\<close>; the program leaves that limit at the
  interpreter's default, 4300. (\<open>int(s, 16)\<close> has no such limit: the base is a power of
  two.)
\<close>

fun dec_digits :: "nat \<Rightarrow> pystr" where
  "dec_digits n = (if n < 10 then [48 + n] else dec_digits (n div 10) @ [48 + n mod 10])"

declare dec_digits.simps [simp del]

definition int_max_str_digits :: nat where
  "int_max_str_digits = 4300"

definition str_of_int :: "int \<Rightarrow> error + pystr" where
  "str_of_int v =
     (let digits = dec_digits (nat \<bar>v\<bar>)
      in if int_max_str_digits < length digits then Inl ValueError
         else Inr (if v < 0 then 45 # digits else digits))"

text \<open>
  \<open>emit_items\<close> is the generator of the list case, \<open>emit_parts\<close> the loop of
  \<open>emit_inline_table\<close>. The \<open>ValueError\<close> that \<open>emit_value\<close> raises itself cannot be
  raised: a value is an \<open>int\<close>, a \<open>list\<close> or a \<open>dict\<close>. The one of \<open>str\<close> ends the
  emission wherever it is raised.
\<close>

fun emit_value :: "val \<Rightarrow> error + pystr"
and emit_items :: "val list \<Rightarrow> error + pystr list"
and emit_inline_table :: "pydict \<Rightarrow> error + pystr"
and emit_parts :: "pydict \<Rightarrow> error + pystr list"
where
  "emit_value (VInt v) = str_of_int v"
| "emit_value (VList v) =
     bind (emit_items v) (\<lambda>items. Inr (lit ''['' @ join (lit '', '') items @ lit '']''))"
| "emit_value (VDict v) = emit_inline_table v"
| "emit_items [] = Inr []"
| "emit_items (x # xs) =
     bind (emit_value x) (\<lambda>s. bind (emit_items xs) (\<lambda>rest. Inr (s # rest)))"
| "emit_inline_table dct =
     bind (emit_parts dct) (\<lambda>parts. Inr (lit ''{ '' @ join (lit '', '') parts @ lit '' }''))"
| "emit_parts [] = Inr []"
| "emit_parts ((k, v) # dct) =
     bind (emit_value v) (\<lambda>s. bind (emit_parts dct) (\<lambda>parts.
       Inr ((k @ lit '' = '' @ s) # parts)))"

text \<open>The loop of \<open>emit_root\<close> over the items of a root dictionary.\<close>

fun emit_lines :: "pydict \<Rightarrow> error + pystr list" where
  "emit_lines [] = Inr []"
| "emit_lines ((k, v) # dct) =
     bind (case v of
             VDict d \<Rightarrow> bind (emit_inline_table d) (\<lambda>s. Inr (k @ lit '' = '' @ s))
           | _ \<Rightarrow> bind (emit_value v) (\<lambda>s. Inr (k @ lit '' = '' @ s)))
       (\<lambda>line. bind (emit_lines dct) (\<lambda>lines. Inr (line # lines)))"

fun emit_root :: "val \<Rightarrow> error + pystr" where
  "emit_root (VDict root) =
     bind (emit_lines root) (\<lambda>lines.
       Inr (if lines \<noteq> [] then join [10] lines @ [10] else []))"
| "emit_root root = bind (emit_value root) (\<lambda>s. Inr (lit ''value = '' @ s @ [10]))"

section \<open>The pipeline\<close>

text \<open>
  \<open>run_cli\<close> between reading the input file and writing the output file: the text to
  write, or the exception raised. \<open>exit_code\<close> is the status \<open>run_cli\<close> returns for it
  when both files can be read and written.
\<close>

definition translate :: "unicode \<Rightarrow> pystr \<Rightarrow> error + pystr" where
  "translate U src =
     bind (tokenize U src) (\<lambda>tokens.
     bind (parse_program U tokens) (\<lambda>prog.
     bind (eval_program prog) (\<lambda>root_val.
     emit_root root_val)))"

fun exit_code :: "error + pystr \<Rightarrow> nat" where
  "exit_code (Inr toml_text) = 0"
| "exit_code (Inl (LexerError e)) = 1"
| "exit_code (Inl (ParseError e)) = 1"
| "exit_code (Inl (EvalError e)) = 1"
| "exit_code (Inl e) = 3"


section \<open>Notions used in the statements\<close>

text \<open>
  A database in which no code point above 255 is a space, a letter or a digit. On a text
  written in code points below 256 the tables are never read; the runs on concrete
  programs below are made with this one.
\<close>

definition empty_db :: unicode where
  "empty_db = \<lparr>u_isspace = (\<lambda>c. False), u_isalpha = (\<lambda>c. False), u_decimal = (\<lambda>c. None),
     u_isdigit = (\<lambda>c. False), u_isnumeric = (\<lambda>c. False), u_lower = (\<lambda>c. [c])\<rparr>"

fun is_dict :: "val \<Rightarrow> bool" where
  "is_dict (VDict d) = True"
| "is_dict v = False"

text \<open>The keys of all dictionaries inside a value.\<close>

fun val_keys :: "val \<Rightarrow> pystr list"
and vals_keys :: "val list \<Rightarrow> pystr list"
and dict_keys :: "(pystr \<times> val) list \<Rightarrow> pystr list"
where
  "val_keys (VInt n) = []"
| "val_keys (VList xs) = vals_keys xs"
| "val_keys (VDict d) = dict_keys d"
| "vals_keys [] = []"
| "vals_keys (x # xs) = val_keys x @ vals_keys xs"
| "dict_keys [] = []"
| "dict_keys ((k, v) # d) = k # val_keys v @ dict_keys d"

fun item_key :: "DictItem \<Rightarrow> pystr" where
  "item_key (DictItemNode k v) = k"

fun item_value :: "DictItem \<Rightarrow> node" where
  "item_value (DictItemNode k v) = v"

text \<open>
  The elements of a list in the order of their first occurrences, and the last item of a
  map literal that has a given key.
\<close>

fun first_occurrences :: "'a list \<Rightarrow> 'a list" where
  "first_occurrences [] = []"
| "first_occurrences (x # xs) = x # removeAll x (first_occurrences xs)"

fun last_item :: "pystr \<Rightarrow> DictItem list \<Rightarrow> DictItem option" where
  "last_item k [] = None"
| "last_item k (it # items) =
     (case last_item k items of
        Some x \<Rightarrow> Some x
      | None \<Rightarrow> if item_key it = k then Some it else None)"

fun decl_name :: "ConstDecl \<Rightarrow> pystr" where
  "decl_name (ConstDeclNode name value) = name"

fun decl_value :: "ConstDecl \<Rightarrow> node" where
  "decl_value (ConstDeclNode name value) = value"

text \<open>
  The names a value expression refers to, in evaluation order, and the programs in which
  no constant is declared twice and every declaration refers only to constants declared
  strictly before it (\<open>names\<close> are the constants declared so far).
\<close>

fun refs :: "node \<Rightarrow> pystr list"
and refs_items :: "node list \<Rightarrow> pystr list"
and refs_map :: "DictItem list \<Rightarrow> pystr list"
where
  "refs (NumberNode v) = []"
| "refs (ArrayNode items) = refs_items items"
| "refs (MapNode items) = refs_map items"
| "refs (ConstRefNode name) = [name]"
| "refs_items [] = []"
| "refs_items (item # items) = refs item @ refs_items items"
| "refs_map [] = []"
| "refs_map (DictItemNode key value # items) = refs value @ refs_map items"

fun scoped :: "pystr list \<Rightarrow> ConstDecl list \<Rightarrow> bool" where
  "scoped names [] = True"
| "scoped names (d # decls) =
     (decl_name d \<notin> set names \<and> set (refs (decl_value d)) \<subseteq> set names
      \<and> scoped (names @ [decl_name d]) decls)"

text \<open>
  The 1-based line and column of the character at index \<open>j\<close> of a text: one more than
  the number of newlines before it, and one more than the number of characters between
  the last of those newlines and it. \<open>lexer_ok\<close> says that the lexer's counters are
  those of its index.
\<close>

definition line_of :: "pystr \<Rightarrow> nat \<Rightarrow> nat" where
  "line_of src j = 1 + length (filter (\<lambda>c. c = 10) (take j src))"

definition col_of :: "pystr \<Rightarrow> nat \<Rightarrow> nat" where
  "col_of src j = 1 + length (takeWhile (\<lambda>c. c \<noteq> 10) (rev (take j src)))"

definition lexer_ok :: "Lexer \<Rightarrow> bool" where
  "lexer_ok lx \<longleftrightarrow> lx_i lx \<le> length (lx_text lx)
     \<and> lx_line lx = line_of (lx_text lx) (lx_i lx)
     \<and> lx_col lx = col_of (lx_text lx) (lx_i lx)"

text \<open>
  The test of \<open>lex_hex\<close> for a digit, on one character; \<open>is_hex_digit\<close> is the set
  \<open>[0-9a-fA-F]\<close>.
\<close>

definition hex_accept :: "unicode \<Rightarrow> nat \<Rightarrow> bool" where
  "hex_accept U c \<longleftrightarrow> isdigit U c \<or> str_in (lower U c) (lit ''abcdef'')"

definition is_hex_digit :: "nat \<Rightarrow> bool" where
  "is_hex_digit c \<longleftrightarrow> (48 \<le> c \<and> c \<le> 57) \<or> (97 \<le> c \<and> c \<le> 102) \<or> (65 \<le> c \<and> c \<le> 70)"

text \<open>
  \<open>lexes_to U lx lx2\<close>: from the state \<open>lx\<close> the calls of \<open>next_token\<close> made by
  \<open>tokenize\<close> return tokens, none of them the end of input, and lead to \<open>lx2\<close>.
\<close>

inductive lexes_to :: "unicode \<Rightarrow> Lexer \<Rightarrow> Lexer \<Rightarrow> bool" for U where
  here: "lexes_to U lx lx"
| token: "next_token U lx = Inr (tok, lx1) \<Longrightarrow> tok_kind tok \<noteq> EOF \<Longrightarrow> lexes_to U lx1 lx2
     \<Longrightarrow> lexes_to U lx lx2"

text \<open>
  The value of a digit sequence in base \<open>b\<close>, most significant digit first, and with
  it the base-16 reading of a string of hexadecimal digits (in either case) and the
  base-10 reading of a string of decimal digits.
\<close>

definition positional :: "nat \<Rightarrow> nat list \<Rightarrow> nat" where
  "positional b vs = (\<Sum>i < length vs. vs ! i * b ^ (length vs - 1 - i))"

definition hexval :: "nat \<Rightarrow> nat" where
  "hexval c = (if 48 \<le> c \<and> c \<le> 57 then c - 48
               else if 97 \<le> c \<and> c \<le> 102 then 10 + (c - 97)
               else 10 + (c - 65))"

definition hex_interp :: "pystr \<Rightarrow> nat" where
  "hex_interp ds = positional 16 (map hexval ds)"

definition dec_interp :: "pystr \<Rightarrow> nat" where
  "dec_interp s = positional 10 (map (\<lambda>c. c - 48) s)"

text \<open>
  A parser result that is not \<open>OutOfFuel\<close> and, when it is a value, comes with an index
  that is not before \<open>i\<close> and not past the end of the token list.
\<close>

definition stays :: "Token list \<Rightarrow> nat \<Rightarrow> error + ('a \<times> nat) \<Rightarrow> bool" where
  "stays tokens i r \<longleftrightarrow>
     r \<noteq> Inl OutOfFuel \<and> (\<forall>v j. r = Inr (v, j) \<longrightarrow> i \<le> j \<and> j \<le> length tokens)"

text \<open>
  The names a syntax tree uses: the keys of its maps and the names of its constant
  references; for a program also the names of its constants. \<open>ident_values\<close> are the
  values of the identifier tokens of a token list.
\<close>

fun node_names :: "node \<Rightarrow> pystr list"
and nodes_names :: "node list \<Rightarrow> pystr list"
and items_names :: "DictItem list \<Rightarrow> pystr list"
where
  "node_names (NumberNode v) = []"
| "node_names (ArrayNode items) = nodes_names items"
| "node_names (MapNode items) = items_names items"
| "node_names (ConstRefNode name) = [name]"
| "nodes_names [] = []"
| "nodes_names (item # items) = node_names item @ nodes_names items"
| "items_names [] = []"
| "items_names (DictItemNode key v # items) = key # node_names v @ items_names items"

fun program_names :: "Program \<Rightarrow> pystr list" where
  "program_names (ProgramNode decls root) =
     concat (map (\<lambda>d. decl_name d # node_names (decl_value d)) decls) @ node_names root"

definition ident_values :: "Token list \<Rightarrow> pystr set" where
  "ident_values tokens = tok_value ` {t \<in> set tokens. tok_kind t = IDENT}"

text \<open>The integers inside a value.\<close>

fun val_ints :: "val \<Rightarrow> int list"
and vals_ints :: "val list \<Rightarrow> int list"
and dict_ints :: "(pystr \<times> val) list \<Rightarrow> int list"
where
  "val_ints (VInt n) = [n]"
| "val_ints (VList xs) = vals_ints xs"
| "val_ints (VDict d) = dict_ints d"
| "vals_ints [] = []"
| "vals_ints (x # xs) = val_ints x @ vals_ints xs"
| "dict_ints [] = []"
| "dict_ints ((k, v) # d) = val_ints v @ dict_ints d"

text \<open>
  A decimal numeral: a string of the digits \<open>0\<close> to \<open>9\<close>, not empty, that starts with
  \<open>0\<close> only when it is the string \<open>0\<close>. Every natural number has exactly one.
\<close>

definition decimal_numeral :: "pystr \<Rightarrow> bool" where
  "decimal_numeral s \<longleftrightarrow>
     s \<noteq> [] \<and> list_all (\<lambda>c. 48 \<le> c \<and> c \<le> 57) s \<and> (hd s = 48 \<longrightarrow> s = [48])"

section \<open>The emitter\<close>

lemma bind_Inr_iff: "bind m f = Inr y \<longleftrightarrow> (\<exists>x. m = Inr x \<and> f x = Inr y)"
  by (cases m) (simp_all add: bind_def)

lemma bind_Inl_iff: "bind m f = Inl e \<longleftrightarrow> m = Inl e \<or> (\<exists>x. m = Inr x \<and> f x = Inl e)"
  by (cases m) (simp_all add: bind_def)

lemma dec_digits_last: "dec_digits n \<noteq> [] \<and> 48 \<le> last (dec_digits n) \<and> last (dec_digits n) \<le> 57"
  by (subst (1 2 3) dec_digits.simps) auto

lemma dec_digits_range: "c \<in> set (dec_digits n) \<Longrightarrow> 48 \<le> c \<and> c \<le> 57"
proof (induction n arbitrary: c rule: dec_digits.induct)
  case (1 n)
  from "1.prems" have "c \<in> set (if n < 10 then [48 + n] else dec_digits (n div 10) @ [48 + n mod 10])"
    by (subst (asm) dec_digits.simps) simp
  then show ?case
    using "1.IH" by (auto split: if_splits)
qed

text \<open>A number has at most \<open>k\<close> decimal digits exactly when it is below \<open>10 ^ k\<close>.\<close>

lemma dec_digits_length: "0 < k \<Longrightarrow> length (dec_digits n) \<le> k \<longleftrightarrow> n < 10 ^ k"
proof (induction n arbitrary: k rule: dec_digits.induct)
  case (1 n)
  show ?case
  proof (cases "n < 10")
    case True
    have "(10::nat) ^ 1 \<le> 10 ^ k"
      using "1.prems" by (intro power_increasing) simp_all
    with True have "n < 10 ^ k" by simp
    moreover have "length (dec_digits n) = 1"
      using True by (subst dec_digits.simps) simp
    ultimately show ?thesis
      using "1.prems" by simp
  next
    case False
    then have len: "length (dec_digits n) = Suc (length (dec_digits (n div 10)))"
      by (subst dec_digits.simps) simp
    from "1.prems" obtain j where k: "k = Suc j" by (cases k) auto
    show ?thesis
    proof (cases "j = 0")
      case True
      have "dec_digits (n div 10) \<noteq> []"
        using dec_digits_last [of "n div 10"] by simp
      then have "0 < length (dec_digits (n div 10))" by simp
      with len True k False show ?thesis by simp
    next
      case j: False
      then have "length (dec_digits (n div 10)) \<le> j \<longleftrightarrow> n div 10 < 10 ^ j"
        using "1.IH" [OF False, of j] by simp
      also have "\<dots> \<longleftrightarrow> n < 10 ^ k"
        by (simp add: k div_less_iff_less_mult mult.commute)
      finally show ?thesis
        by (simp add: len k)
    qed
  qed
qed

lemma str_of_int_Inr:
  "str_of_int v = Inr s \<longleftrightarrow>
     \<bar>v\<bar> < 10 ^ int_max_str_digits
     \<and> s = (if v < 0 then 45 # dec_digits (nat \<bar>v\<bar>) else dec_digits (nat \<bar>v\<bar>))"
proof -
  have "0 < int_max_str_digits" by (simp add: int_max_str_digits_def)
  from dec_digits_length [OF this, of "nat \<bar>v\<bar>"]
  have "length (dec_digits (nat \<bar>v\<bar>)) \<le> int_max_str_digits \<longleftrightarrow> \<bar>v\<bar> < 10 ^ int_max_str_digits"
    by (simp add: nat_less_iff)
  then show ?thesis
    by (auto simp: str_of_int_def Let_def not_less)
qed

lemma str_of_int_Inl:
  "str_of_int v = Inl e \<longleftrightarrow> 10 ^ int_max_str_digits \<le> \<bar>v\<bar> \<and> e = ValueError"
proof -
  have "str_of_int v = Inl e \<longleftrightarrow> (\<forall>s. str_of_int v \<noteq> Inr s) \<and> e = ValueError"
    by (auto simp: str_of_int_def Let_def)
  then show ?thesis
    by (auto simp: str_of_int_Inr not_less)
qed

lemma emit_lines_parts: "emit_lines d = emit_parts d"
  by (induction d) (auto simp: bind_def split: val.splits sum.splits)

lemma emit_items_iff:
  "emit_items xs = Inr ss \<longleftrightarrow> list_all2 (\<lambda>x s. emit_value x = Inr s) xs ss"
proof (induction xs arbitrary: ss)
  case Nil
  then show ?case by auto
next
  case (Cons x xs)
  then show ?case
    by (cases ss) (auto simp: bind_Inr_iff)
qed

lemma emit_parts_iff:
  "emit_parts d = Inr parts \<longleftrightarrow>
     (\<exists>ss. list_all2 (\<lambda>(k, v) s. emit_value v = Inr s) d ss
        \<and> parts = map2 (\<lambda>(k, v) s. k @ lit '' = '' @ s) d ss)"
proof (induction d arbitrary: parts)
  case Nil
  then show ?case by auto
next
  case (Cons kv d)
  obtain k v where kv: "kv = (k, v)" by (cases kv)
  show ?case
  proof
    assume "emit_parts (kv # d) = Inr parts"
    then obtain s ps where s: "emit_value v = Inr s" and ps: "emit_parts d = Inr ps"
      and parts: "parts = (k @ lit '' = '' @ s) # ps"
      by (auto simp: kv bind_Inr_iff)
    from ps Cons.IH obtain ss where "list_all2 (\<lambda>(k, v) s. emit_value v = Inr s) d ss"
      "ps = map2 (\<lambda>(k, v) s. k @ lit '' = '' @ s) d ss"
      by blast
    then show "\<exists>ss. list_all2 (\<lambda>(k, v) s. emit_value v = Inr s) (kv # d) ss
        \<and> parts = map2 (\<lambda>(k, v) s. k @ lit '' = '' @ s) (kv # d) ss"
      using s parts kv by (intro exI [of _ "s # ss"]) simp
  next
    assume "\<exists>ss. list_all2 (\<lambda>(k, v) s. emit_value v = Inr s) (kv # d) ss
        \<and> parts = map2 (\<lambda>(k, v) s. k @ lit '' = '' @ s) (kv # d) ss"
    then obtain ss where a: "list_all2 (\<lambda>(k, v) s. emit_value v = Inr s) (kv # d) ss"
      and parts: "parts = map2 (\<lambda>(k, v) s. k @ lit '' = '' @ s) (kv # d) ss"
      by blast
    from a obtain s ss' where ss: "ss = s # ss'" and s: "emit_value v = Inr s"
      and rest: "list_all2 (\<lambda>(k, v) s. emit_value v = Inr s) d ss'"
      by (auto simp: kv list_all2_Cons1)
    from rest Cons.IH have "emit_parts d = Inr (map2 (\<lambda>(k, v) s. k @ lit '' = '' @ s) d ss')"
      by blast
    with s show "emit_parts (kv # d) = Inr parts"
      by (simp add: kv parts ss bind_def)
  qed
qed

lemma emit_error:
  "emit_value v = Inl e \<Longrightarrow> e = ValueError \<and> (\<exists>n \<in> set (val_ints v). 10 ^ int_max_str_digits \<le> \<bar>n\<bar>)"
  "emit_items xs = Inl e \<Longrightarrow> e = ValueError \<and> (\<exists>n \<in> set (vals_ints xs). 10 ^ int_max_str_digits \<le> \<bar>n\<bar>)"
  "emit_inline_table d = Inl e \<Longrightarrow> e = ValueError \<and> (\<exists>n \<in> set (dict_ints d). 10 ^ int_max_str_digits \<le> \<bar>n\<bar>)"
  "emit_parts d = Inl e \<Longrightarrow> e = ValueError \<and> (\<exists>n \<in> set (dict_ints d). 10 ^ int_max_str_digits \<le> \<bar>n\<bar>)"
proof (induction v and xs and d and d rule: emit_value_emit_items_emit_inline_table_emit_parts.induct)
  case (1 v)
  then show ?case by (simp add: str_of_int_Inl)
qed (auto simp: bind_Inl_iff)

lemma emit_ok:
  "emit_value v = Inr s \<Longrightarrow> \<forall>n \<in> set (val_ints v). \<bar>n\<bar> < 10 ^ int_max_str_digits"
  "emit_items xs = Inr ss \<Longrightarrow> \<forall>n \<in> set (vals_ints xs). \<bar>n\<bar> < 10 ^ int_max_str_digits"
  "emit_inline_table d = Inr s \<Longrightarrow> \<forall>n \<in> set (dict_ints d). \<bar>n\<bar> < 10 ^ int_max_str_digits"
  "emit_parts d = Inr ss \<Longrightarrow> \<forall>n \<in> set (dict_ints d). \<bar>n\<bar> < 10 ^ int_max_str_digits"
proof (induction v and xs and d and d arbitrary: s and ss and s and ss
    rule: emit_value_emit_items_emit_inline_table_emit_parts.induct)
  case (1 v)
  then show ?case by (simp add: str_of_int_Inr)
qed (auto simp: bind_Inr_iff)

lemma emit_value_ok_iff:
  "(\<exists>s. emit_value v = Inr s) \<longleftrightarrow> (\<forall>n \<in> set (val_ints v). \<bar>n\<bar> < 10 ^ int_max_str_digits)"
proof
  assume "\<exists>s. emit_value v = Inr s"
  then show "\<forall>n \<in> set (val_ints v). \<bar>n\<bar> < 10 ^ int_max_str_digits"
    using emit_ok(1) by blast
next
  assume a: "\<forall>n \<in> set (val_ints v). \<bar>n\<bar> < 10 ^ int_max_str_digits"
  show "\<exists>s. emit_value v = Inr s"
  proof (cases "emit_value v")
    case (Inl e)
    from emit_error(1) [OF this] a show ?thesis by (auto simp: not_le [symmetric])
  next
    case (Inr s)
    then show ?thesis by blast
  qed
qed

text \<open>
  Claim C9. A nested map is rendered as \<open>{ \<close>, its entries \<open>key = value\<close> joined by
  \<open>, \<close>, and \<open> }\<close>, where the values are the renderings of the values of the map, in
  its order; with no entries that is the four characters \<open>{  }\<close>. This is how
  \<open>emit_value\<close> renders every dictionary, and a dictionary that is the value of a key of
  the root, an item of an array or a value inside another dictionary is rendered by it.
  Nothing is rendered only when \<open>str\<close> refuses a number inside the map.
\<close>

theorem C9_inline_table:
  "(emit_value (VDict d) = Inr t \<longleftrightarrow>
      (\<exists>ss. list_all2 (\<lambda>(k, v) s. emit_value v = Inr s) d ss
         \<and> t = lit ''{ '' @ join (lit '', '') (map2 (\<lambda>(k, v) s. k @ lit '' = '' @ s) d ss)
             @ lit '' }''))
   \<and> emit_value (VDict []) = Inr (lit ''{  }'')
   \<and> (emit_value (VDict []) = Inr t0 \<longrightarrow> length t0 = 4)
   \<and> (emit_value (VDict d) = Inr t \<longrightarrow>
        emit_lines [(k, VDict d)] = Inr [k @ lit '' = '' @ t]
        \<and> emit_items [VDict d] = Inr [t]
        \<and> emit_parts [(k, VDict d)] = Inr [k @ lit '' = '' @ t])
   \<and> (emit_value (VDict d) = Inl e \<longrightarrow>
        e = ValueError \<and> (\<exists>n \<in> set (val_ints (VDict d)). 10 ^ int_max_str_digits \<le> \<bar>n\<bar>)
        \<and> emit_lines [(k, VDict d)] = Inl e
        \<and> emit_items [VDict d] = Inl e
        \<and> emit_parts [(k, VDict d)] = Inl e)
   \<and> ((\<exists>t. emit_value (VDict d) = Inr t)
        \<longleftrightarrow> (\<forall>n \<in> set (val_ints (VDict d)). \<bar>n\<bar> < 10 ^ int_max_str_digits))
   \<and> int_max_str_digits = 4300"
proof -
  have 1: "emit_value (VDict d) = Inr t \<longleftrightarrow>
      (\<exists>ss. list_all2 (\<lambda>(k, v) s. emit_value v = Inr s) d ss
         \<and> t = lit ''{ '' @ join (lit '', '') (map2 (\<lambda>(k, v) s. k @ lit '' = '' @ s) d ss)
             @ lit '' }'')"
    by (auto simp: bind_Inr_iff emit_parts_iff)
  have 2: "emit_value (VDict []) = Inr (lit ''{  }'')"
    by (simp add: bind_def lit_def)
  have 3: "emit_value (VDict []) = Inr t0 \<longrightarrow> length t0 = 4"
    by (auto simp: bind_def lit_def)
  have 4: "emit_value (VDict d) = Inr t \<longrightarrow>
      emit_lines [(k, VDict d)] = Inr [k @ lit '' = '' @ t]
      \<and> emit_items [VDict d] = Inr [t]
      \<and> emit_parts [(k, VDict d)] = Inr [k @ lit '' = '' @ t]"
    by (simp add: bind_def)
  have 5: "emit_value (VDict d) = Inl e \<longrightarrow>
      e = ValueError \<and> (\<exists>n \<in> set (val_ints (VDict d)). 10 ^ int_max_str_digits \<le> \<bar>n\<bar>)
      \<and> emit_lines [(k, VDict d)] = Inl e
      \<and> emit_items [VDict d] = Inl e
      \<and> emit_parts [(k, VDict d)] = Inl e"
    using emit_error(1) [of "VDict d" e] by (simp add: bind_def)
  have 6: "(\<exists>t. emit_value (VDict d) = Inr t)
      \<longleftrightarrow> (\<forall>n \<in> set (val_ints (VDict d)). \<bar>n\<bar> < 10 ^ int_max_str_digits)"
    by (rule emit_value_ok_iff)
  have 7: "int_max_str_digits = 4300"
    by (simp add: int_max_str_digits_def)
  show ?thesis
    by (intro conjI) (rule 1, rule 2, rule 3, rule 4, rule 5, rule 6, rule 7)
qed

theorem C9_inline_table_witness:
  "emit_value (VDict [(lit ''a'', VInt 1), (lit ''b'', VDict [])]) = Inr (lit ''{ a = 1, b = {  } }'')
   \<and> emit_root (VDict [(lit ''k'', VDict [])]) = Inr (lit ''k = {  }'' @ [10])
   \<and> emit_root (VList [VDict []]) = Inr (lit ''value = [{  }]'' @ [10])
   \<and> emit_lines [(lit ''k'', VDict [])] = Inr [lit ''k = {  }'']"
proof -
  have a: "emit_value (VDict [(lit ''a'', VInt 1), (lit ''b'', VDict [])])
      = Inr (lit ''{ a = 1, b = {  } }'')"
    by (simp add: lit_def bind_def str_of_int_def int_max_str_digits_def dec_digits.simps)
  have b: "emit_value (VDict []) = Inr (lit ''{  }'')"
    by (simp add: lit_def bind_def)
  have "emit_lines [(lit ''k'', VDict [])] = Inr [lit ''k'' @ lit '' = '' @ lit ''{  }'']"
    using C9_inline_table [of "[]" "lit ''{  }''" "lit ''{  }''" "lit ''k''" ValueError] b
    by blast
  then have c: "emit_lines [(lit ''k'', VDict [])] = Inr [lit ''k = {  }'']"
    by (simp add: lit_def)
  have d: "emit_root (VDict [(lit ''k'', VDict [])]) = Inr (lit ''k = {  }'' @ [10])"
    "emit_root (VList [VDict []]) = Inr (lit ''value = [{  }]'' @ [10])"
    by (simp_all add: lit_def bind_def)
  from a c d show ?thesis by simp
qed

lemma join_last:
  "ls \<noteq> [] \<Longrightarrow> last ls \<noteq> [] \<Longrightarrow> join sep ls \<noteq> [] \<and> last (join sep ls) = last (last ls)"
  by (induction sep ls rule: join.induct) auto

lemma join_newline: "ls \<noteq> [] \<Longrightarrow> join [10] ls @ [10] = concat (map (\<lambda>l. l @ [10]) ls)"
  by (induction "[10::nat]" ls rule: join.induct) auto

lemma join_set: "set (join sep ls) \<subseteq> set sep \<union> \<Union> (set ` set ls)"
  by (induction sep ls rule: join.induct) auto

lemma str_of_int_last: "str_of_int n = Inr s \<Longrightarrow> s \<noteq> [] \<and> last s \<noteq> 10"
  using dec_digits_last [of "nat \<bar>n\<bar>"] by (auto simp: str_of_int_Inr)

lemma str_of_int_no_newline: "str_of_int n = Inr s \<Longrightarrow> 10 \<notin> set s"
  using dec_digits_range [of 10 "nat \<bar>n\<bar>"] by (auto simp: str_of_int_Inr)

lemma emit_value_last: "emit_value v = Inr s \<Longrightarrow> s \<noteq> [] \<and> last s \<noteq> 10"
proof (cases v)
  case (VInt n)
  then show "emit_value v = Inr s \<Longrightarrow> s \<noteq> [] \<and> last s \<noteq> 10"
    using str_of_int_last [of n s] by simp
next
  case (VList xs)
  then show "emit_value v = Inr s \<Longrightarrow> s \<noteq> [] \<and> last s \<noteq> 10"
    by (auto simp: bind_Inr_iff lit_def)
next
  case (VDict d)
  then show "emit_value v = Inr s \<Longrightarrow> s \<noteq> [] \<and> last s \<noteq> 10"
    by (auto simp: bind_Inr_iff lit_def)
qed

lemma emit_no_newline:
  "emit_value v = Inr s \<Longrightarrow> (\<forall>k \<in> set (val_keys v). 10 \<notin> set k) \<Longrightarrow> 10 \<notin> set s"
  "emit_items xs = Inr ss \<Longrightarrow> (\<forall>k \<in> set (vals_keys xs). 10 \<notin> set k) \<Longrightarrow>
     \<forall>s \<in> set ss. 10 \<notin> set s"
  "emit_inline_table d = Inr s \<Longrightarrow> (\<forall>k \<in> set (dict_keys d). 10 \<notin> set k) \<Longrightarrow> 10 \<notin> set s"
  "emit_parts d = Inr ss \<Longrightarrow> (\<forall>k \<in> set (dict_keys d). 10 \<notin> set k) \<Longrightarrow>
     \<forall>s \<in> set ss. 10 \<notin> set s"
proof (induction v and xs and d and d arbitrary: s and ss and s and ss
    rule: emit_value_emit_items_emit_inline_table_emit_parts.induct)
  case (1 v)
  then show ?case by (simp add: str_of_int_no_newline)
next
  case (2 v)
  from "2.prems"(1) obtain items where items: "emit_items v = Inr items"
    and s: "s = lit ''['' @ join (lit '', '') items @ lit '']''"
    by (auto simp: bind_Inr_iff)
  from "2.IH" [OF items] "2.prems"(2) have "\<forall>s \<in> set items. 10 \<notin> set s" by simp
  then show ?case
    using join_set [of "lit '', ''" items] by (auto simp: s lit_def)
next
  case (3 v)
  then show ?case by simp
next
  case 4
  then show ?case by simp
next
  case (5 x xs)
  then show ?case by (auto simp: bind_Inr_iff)
next
  case (6 dct)
  from "6.prems"(1) obtain parts where parts: "emit_parts dct = Inr parts"
    and s: "s = lit ''{ '' @ join (lit '', '') parts @ lit '' }''"
    by (auto simp: bind_Inr_iff)
  from "6.IH" [OF parts] "6.prems"(2) have "\<forall>s \<in> set parts. 10 \<notin> set s" by simp
  then show ?case
    using join_set [of "lit '', ''" parts] by (auto simp: s lit_def)
next
  case 7
  then show ?case by simp
next
  case (8 k v dct)
  then show ?case by (auto simp: bind_Inr_iff lit_def)
qed

section \<open>The evaluator\<close>

lemma dict_set_keys:
  "map fst (dict_set d k v) = (if k \<in> set (map fst d) then map fst d else map fst d @ [k])"
  by (induction d k v rule: dict_set.induct) auto

lemma dict_set_map_of: "map_of (dict_set d k v) = (map_of d)(k \<mapsto> v)"
  by (induction d k v rule: dict_set.induct) auto

lemma dict_set_distinct: "distinct (map fst d) \<Longrightarrow> distinct (map fst (dict_set d k v))"
  by (simp add: dict_set_keys)

lemma filter_removeAll_absorb: "\<not> P x \<Longrightarrow> filter P (removeAll x xs) = filter P xs"
  by (induction xs) auto

lemma filter_removeAll: "filter (\<lambda>x. P x \<and> x \<noteq> k) xs = filter P (removeAll k xs)"
  by (induction xs) auto

lemma first_occurrences_set [simp]: "set (first_occurrences xs) = set xs"
  by (induction xs) auto

lemma first_occurrences_distinct [simp]: "distinct (first_occurrences xs)"
  by (induction xs) (auto simp: distinct_removeAll)

lemma first_occurrences_id: "distinct xs \<Longrightarrow> first_occurrences xs = xs"
  by (induction xs) auto

lemma eval_map_keys:
  "eval_map cs items acc = Inr d \<Longrightarrow>
   map fst d = map fst acc
     @ filter (\<lambda>k. k \<notin> set (map fst acc)) (first_occurrences (map item_key items))"
proof (induction items arbitrary: acc)
  case Nil
  then show ?case by simp
next
  case (Cons it items)
  obtain k e where it: "it = DictItemNode k e" by (cases it)
  from Cons.prems it obtain v where v: "eval_value cs e = Inr v"
    and rest: "eval_map cs items (dict_set acc k v) = Inr d"
    by (auto simp: bind_def split: sum.splits)
  let ?fo = "first_occurrences (map item_key items)"
  have d: "map fst d = map fst (dict_set acc k v)
      @ filter (\<lambda>x. x \<notin> set (map fst (dict_set acc k v))) ?fo"
    by (rule Cons.IH [OF rest])
  show ?case
  proof (cases "k \<in> set (map fst acc)")
    case True
    then show ?thesis
      using d by (simp add: it dict_set_keys filter_removeAll_absorb)
  next
    case False
    have "filter (\<lambda>x. x \<notin> set (map fst acc) \<and> x \<noteq> k) ?fo
        = filter (\<lambda>x. x \<notin> set (map fst acc)) (removeAll k ?fo)"
      by (rule filter_removeAll)
    then show ?thesis
      using d False by (simp add: it dict_set_keys conj_commute)
  qed
qed

lemma eval_map_lookup:
  "eval_map cs items acc = Inr d \<Longrightarrow>
   map_of d k = (case last_item k items of
                   None \<Rightarrow> map_of acc k
                 | Some it \<Rightarrow> (case eval_value cs (item_value it) of
                                Inr v \<Rightarrow> Some v | Inl e \<Rightarrow> None))"
proof (induction items arbitrary: acc)
  case Nil
  then show ?case by simp
next
  case (Cons it items)
  obtain k' e where it: "it = DictItemNode k' e" by (cases it)
  from Cons.prems it obtain v where v: "eval_value cs e = Inr v"
    and rest: "eval_map cs items (dict_set acc k' v) = Inr d"
    by (auto simp: bind_def split: sum.splits)
  show ?case
    using Cons.IH [OF rest] v
    by (auto simp: it dict_set_map_of split: option.splits)
qed

lemma eval_map_distinct:
  "eval_map cs items acc = Inr d \<Longrightarrow> distinct (map fst acc) \<Longrightarrow> distinct (map fst d)"
proof (induction items arbitrary: acc)
  case Nil
  then show ?case by simp
next
  case (Cons it items)
  obtain k e where it: "it = DictItemNode k e" by (cases it)
  from Cons.prems it obtain v where "eval_map cs items (dict_set acc k v) = Inr d"
    by (auto simp: bind_def split: sum.splits)
  then show ?case
    using Cons.IH Cons.prems(2) dict_set_distinct by blast
qed

text \<open>
  Claim C1, as the code has it. When a map literal evaluates, the result is a dictionary
  whose keys are the keys of the literal in the order of their first occurrences, each
  once, and every key holds the value of the last item that has it. (The claim puts a
  repeated key at the place of its last occurrence; assigning to a key that a Python
  dictionary holds leaves the key where it is.)
\<close>

theorem C1_duplicate_keys:
  assumes "eval_value cs (MapNode items) = Inr r"
  shows "\<exists>d. r = VDict d
     \<and> map fst d = first_occurrences (map item_key items)
     \<and> distinct (map fst d)
     \<and> (\<forall>k. map_of d k =
          (case last_item k items of
             None \<Rightarrow> None
           | Some it \<Rightarrow> (case eval_value cs (item_value it) of
                          Inr v \<Rightarrow> Some v | Inl e \<Rightarrow> None)))"
proof -
  from assms obtain d where d: "eval_map cs items [] = Inr d" and r: "r = VDict d"
    by (auto simp: bind_def split: sum.splits)
  show ?thesis
    using eval_map_keys [OF d] eval_map_lookup [OF d] eval_map_distinct [OF d] r
    by (auto split: option.splits)
qed


theorem C1_duplicate_keys_witness:
  "eval_value [] (MapNode [DictItemNode (lit ''a'') (NumberNode 1),
       DictItemNode (lit ''b'') (NumberNode 2), DictItemNode (lit ''a'') (NumberNode 3)])
     = Inr (VDict [(lit ''a'', VInt 3), (lit ''b'', VInt 2)])
   \<and> first_occurrences (map item_key [DictItemNode (lit ''a'') (NumberNode 1),
       DictItemNode (lit ''b'') (NumberNode 2), DictItemNode (lit ''a'') (NumberNode 3)])
     = map fst [(lit ''a'', VInt 3), (lit ''b'', VInt 2)]"
proof -
  let ?items = "[DictItemNode (lit ''a'') (NumberNode 1),
       DictItemNode (lit ''b'') (NumberNode 2), DictItemNode (lit ''a'') (NumberNode 3)]"
  have e: "eval_value [] (MapNode ?items) = Inr (VDict [(lit ''a'', VInt 3), (lit ''b'', VInt 2)])"
    by (simp add: bind_def lit_def)
  from C1_duplicate_keys [OF e] obtain d
    where "VDict [(lit ''a'', VInt 3), (lit ''b'', VInt 2)] = VDict d"
      and "map fst d = first_occurrences (map item_key ?items)"
    by blast
  then have "first_occurrences (map item_key ?items)
      = map fst [(lit ''a'', VInt 3), (lit ''b'', VInt 2)]"
    by simp
  with e show ?thesis by simp
qed

text \<open>
  The program of the claim: the root map \<open>{ a = 0x1; b = 0x2; a = 0x3; }\<close> is emitted
  with the key \<open>a\<close> before the key \<open>b\<close>, not after it.
\<close>

theorem C1_last_position_counterexample:
  "translate empty_db (lit ''{ a = 0x1; b = 0x2; a = 0x3; }'')
     = Inr (lit ''a = 3'' @ [10] @ lit ''b = 2'' @ [10])
   \<and> translate empty_db (lit ''{ a = 0x1; b = 0x2; a = 0x3; }'')
     \<noteq> Inr (lit ''b = 2'' @ [10] @ lit ''a = 3'' @ [10])"
  by code_simp

lemma dict_set_absent: "k \<notin> set (map fst d) \<Longrightarrow> dict_set d k v = d @ [(k, v)]"
  by (induction d k v rule: dict_set.induct) auto

lemma eval_map_distinct_keys:
  "eval_map cs items acc = Inr d \<Longrightarrow> distinct (map item_key items) \<Longrightarrow>
   set (map item_key items) \<inter> set (map fst acc) = {} \<Longrightarrow>
   \<exists>new. d = acc @ new \<and> map fst new = map item_key items
     \<and> map (\<lambda>it. eval_value cs (item_value it)) items = map (\<lambda>(k, v). Inr v) new"
proof (induction items arbitrary: acc)
  case Nil
  then show ?case by simp
next
  case (Cons it items)
  obtain k e where it: "it = DictItemNode k e" by (cases it)
  from Cons.prems(1) it obtain v where v: "eval_value cs e = Inr v"
    and rest: "eval_map cs items (dict_set acc k v) = Inr d"
    by (auto simp: bind_def split: sum.splits)
  have k: "k \<notin> set (map fst acc)" "k \<notin> set (map item_key items)"
    using Cons.prems(2,3) it by auto
  then have ds: "dict_set acc k v = acc @ [(k, v)]"
    by (simp add: dict_set_absent)
  have "set (map item_key items) \<inter> set (map fst (acc @ [(k, v)])) = {}"
    using Cons.prems(3) k by auto
  with Cons.IH [of "acc @ [(k, v)]"] rest ds Cons.prems(2)
  obtain new where new: "d = (acc @ [(k, v)]) @ new" "map fst new = map item_key items"
      "map (\<lambda>it. eval_value cs (item_value it)) items = map (\<lambda>(k, v). Inr v) new"
    by auto
  show ?case
    by (rule exI [of _ "(k, v) # new"]) (simp add: new it v)
qed

lemma emit_root_dict:
  "emit_root (VDict d) = Inr out \<longleftrightarrow>
     (\<exists>ss. list_all2 (\<lambda>(k, v) s. emit_value v = Inr s) d ss
        \<and> out = concat (map2 (\<lambda>(k, v) s. k @ lit '' = '' @ s @ [10]) d ss))"
proof -
  have nl: "(if parts \<noteq> [] then join [10] parts @ [10] else []) = concat (map (\<lambda>l. l @ [10]) parts)"
    for parts :: "pystr list"
    by (simp add: join_newline)
  have "emit_root (VDict d) = Inr out \<longleftrightarrow>
      (\<exists>parts. emit_parts d = Inr parts \<and> out = concat (map (\<lambda>l. l @ [10]) parts))"
    unfolding emit_root.simps emit_lines_parts bind_Inr_iff nl by auto
  also have "\<dots> \<longleftrightarrow> (\<exists>ss. list_all2 (\<lambda>(k, v) s. emit_value v = Inr s) d ss
      \<and> out = concat (map2 (\<lambda>(k, v) s. k @ lit '' = '' @ s @ [10]) d ss))"
    by (auto simp: emit_parts_iff comp_def case_prod_unfold)
  finally show ?thesis .
qed

lemma emit_root_error:
  "emit_root r = Inl e \<Longrightarrow> e = ValueError \<and> (\<exists>n \<in> set (val_ints r). 10 ^ int_max_str_digits \<le> \<bar>n\<bar>)"
proof (cases r)
  case (VDict d)
  assume "emit_root r = Inl e"
  with VDict have "emit_parts d = Inl e"
    by (auto simp: bind_Inl_iff emit_lines_parts)
  from emit_error(4) [OF this] VDict show ?thesis by simp
next
  case (VInt n)
  assume "emit_root r = Inl e"
  with VInt have "emit_value r = Inl e" by (auto simp: bind_Inl_iff)
  from emit_error(1) [OF this] show ?thesis .
next
  case (VList xs)
  assume "emit_root r = Inl e"
  with VList have "emit_value r = Inl e" by (auto simp: bind_Inl_iff)
  from emit_error(1) [OF this] show ?thesis .
qed

text \<open>
  Claim C5. A map literal whose keys are pairwise distinct evaluates to a dictionary with
  the same keys in the same order, each with the value of its own item, and as the root
  it is emitted as one line \<open>key = value\<close> per key, in that order, the values being the
  renderings of the values of the dictionary. (Nothing is emitted only when \<open>str\<close>
  refuses a number inside the dictionary.)
\<close>

theorem C5_key_order:
  assumes "distinct (map item_key items)" and "eval_value cs (MapNode items) = Inr r"
  shows "\<exists>d. r = VDict d \<and> map fst d = map item_key items
     \<and> map (\<lambda>it. eval_value cs (item_value it)) items = map (\<lambda>(k, v). Inr v) d
     \<and> (\<forall>out. emit_root r = Inr out \<longleftrightarrow>
          (\<exists>ss. list_all2 (\<lambda>(k, v) s. emit_value v = Inr s) d ss
             \<and> out = concat (map2 (\<lambda>(k, v) s. k @ lit '' = '' @ s @ [10]) d ss)))
     \<and> (\<forall>e. emit_root r = Inl e \<longrightarrow>
          e = ValueError \<and> (\<exists>n \<in> set (val_ints r). 10 ^ int_max_str_digits \<le> \<bar>n\<bar>))"
proof -
  from assms(2) obtain d where d: "eval_map cs items [] = Inr d" and r: "r = VDict d"
    by (auto simp: bind_def split: sum.splits)
  from eval_map_distinct_keys [OF d assms(1)]
  have "map fst d = map item_key items"
    "map (\<lambda>it. eval_value cs (item_value it)) items = map (\<lambda>(k, v). Inr v) d"
    by auto
  moreover have "\<forall>out. emit_root r = Inr out \<longleftrightarrow>
      (\<exists>ss. list_all2 (\<lambda>(k, v) s. emit_value v = Inr s) d ss
         \<and> out = concat (map2 (\<lambda>(k, v) s. k @ lit '' = '' @ s @ [10]) d ss))"
    unfolding r using emit_root_dict [of d] by blast
  moreover have "\<forall>e. emit_root r = Inl e \<longrightarrow>
      e = ValueError \<and> (\<exists>n \<in> set (val_ints r). 10 ^ int_max_str_digits \<le> \<bar>n\<bar>)"
    using emit_root_error [of r] by blast
  ultimately show ?thesis
    using r by blast
qed

theorem C5_key_order_witness:
  "emit_root (VDict [(lit ''a'', VInt 1), (lit ''b'', VInt 2)])
     = Inr (lit ''a = 1'' @ [10] @ lit ''b = 2'' @ [10])
   \<and> translate empty_db (lit ''{ a = 0x1; b = 0x2; }'') = Inr (lit ''a = 1'' @ [10] @ lit ''b = 2'' @ [10])"
proof -
  let ?items = "[DictItemNode (lit ''a'') (NumberNode 1), DictItemNode (lit ''b'') (NumberNode 2)]"
  let ?d = "[(lit ''a'', VInt 1), (lit ''b'', VInt 2)]"
  let ?r = "VDict ?d"
  have 1: "distinct (map item_key ?items)" by (simp add: lit_def)
  have 2: "eval_value [] (MapNode ?items) = Inr ?r" by (simp add: bind_def lit_def)
  from C5_key_order [OF 1 2] obtain d where "?r = VDict d"
    "\<forall>out. emit_root ?r = Inr out \<longleftrightarrow>
       (\<exists>ss. list_all2 (\<lambda>(k, v) s. emit_value v = Inr s) d ss
          \<and> out = concat (map2 (\<lambda>(k, v) s. k @ lit '' = '' @ s @ [10]) d ss))"
    by blast
  then have iff: "emit_root ?r = Inr out \<longleftrightarrow>
      (\<exists>ss. list_all2 (\<lambda>(k, v) s. emit_value v = Inr s) ?d ss
         \<and> out = concat (map2 (\<lambda>(k, v) s. k @ lit '' = '' @ s @ [10]) ?d ss))" for out
    by auto
  have s: "emit_value (VInt 1) = Inr (lit ''1'')" "emit_value (VInt 2) = Inr (lit ''2'')"
    by (simp_all add: lit_def str_of_int_def int_max_str_digits_def dec_digits.simps)
  have "list_all2 (\<lambda>(k, v) s. emit_value v = Inr s) ?d [lit ''1'', lit ''2'']"
    using s by simp
  then have "emit_root ?r
      = Inr (concat (map2 (\<lambda>(k, v) s. k @ lit '' = '' @ s @ [10]) ?d [lit ''1'', lit ''2'']))"
    using iff by blast
  then have "emit_root ?r = Inr (lit ''a = 1'' @ [10] @ lit ''b = 2'' @ [10])"
    by (simp add: lit_def)
  moreover have "translate empty_db (lit ''{ a = 0x1; b = 0x2; }'')
      = Inr (lit ''a = 1'' @ [10] @ lit ''b = 2'' @ [10])"
    by code_simp
  ultimately show ?thesis by simp
qed

section \<open>Constants\<close>

lemma dict_contains_iff: "dict_contains cs name \<longleftrightarrow> name \<in> set (map fst cs)"
  by (simp add: dict_contains_def)

lemma eval_ref_unknown:
  "name \<notin> set (map fst cs) \<Longrightarrow>
   eval_value cs (ConstRefNode name) = Inl (EvalError (UnknownConstant name))"
  by (simp add: dict_contains_def)

lemma eval_ref_known:
  "name \<in> set (map fst cs) \<Longrightarrow> \<exists>v. eval_value cs (ConstRefNode name) = Inr v"
  by (cases "map_of cs name") (auto simp: dict_contains_def map_of_eq_None_iff)

lemma eval_error_unknown:
  "eval_value cs v = Inl e \<Longrightarrow>
     \<exists>name \<in> set (refs v). name \<notin> set (map fst cs) \<and> e = EvalError (UnknownConstant name)"
  "eval_items cs vs = Inl e \<Longrightarrow>
     \<exists>name \<in> set (refs_items vs). name \<notin> set (map fst cs) \<and> e = EvalError (UnknownConstant name)"
  "eval_map cs its acc = Inl e \<Longrightarrow>
     \<exists>name \<in> set (refs_map its). name \<notin> set (map fst cs) \<and> e = EvalError (UnknownConstant name)"
proof (induction cs v and cs vs and cs its acc rule: eval_value_eval_items_eval_map.induct)
  case (4 c name)
  then show ?case
    by (auto simp: dict_contains_def map_of_eq_None_iff split: if_splits option.splits)
qed (auto simp: bind_def split: sum.splits)

lemma eval_ok_refs:
  "eval_value cs v = Inr r \<Longrightarrow> set (refs v) \<subseteq> set (map fst cs)"
  "eval_items cs vs = Inr rs \<Longrightarrow> set (refs_items vs) \<subseteq> set (map fst cs)"
  "eval_map cs its acc = Inr d \<Longrightarrow> set (refs_map its) \<subseteq> set (map fst cs)"
proof (induction cs v and cs vs and cs its acc arbitrary: r and rs and d
    rule: eval_value_eval_items_eval_map.induct)
  case (4 c name)
  then show ?case
    by (auto simp: dict_contains_def split: if_splits)
qed (auto simp: bind_def split: sum.splits)

lemma eval_value_total:
  assumes "set (refs v) \<subseteq> set (map fst cs)"
  shows "\<exists>r. eval_value cs v = Inr r"
proof (cases "eval_value cs v")
  case (Inl e)
  from eval_error_unknown(1) [OF Inl] assms show ?thesis by auto
next
  case (Inr r)
  then show ?thesis by simp
qed

lemma dict_set_key_set: "fst ` set (dict_set d k v) = insert k (fst ` set d)"
  using dict_set_keys [of d k v, THEN arg_cong, of set] by auto

lemma eval_decls_keys:
  "eval_decls cs decls = Inr cs' \<Longrightarrow>
   set (map fst cs') = set (map fst cs) \<union> set (map decl_name decls)"
proof (induction cs decls rule: eval_decls.induct)
  case (1 c)
  then show ?case by simp
next
  case (2 c name e0 decls)
  from "2.prems" obtain v where v: "eval_value c e0 = Inr v"
    and nd: "\<not> dict_contains c name"
    and rest: "eval_decls (dict_set c name v) decls = Inr cs'"
    by (auto simp: bind_def split: if_splits sum.splits)
  from "2.IH" [OF nd rest] show ?case
    by (simp add: dict_set_key_set)
qed

lemma eval_decls_append:
  "eval_decls cs (pre @ post) = bind (eval_decls cs pre) (\<lambda>c. eval_decls c post)"
proof (induction cs pre rule: eval_decls.induct)
  case (1 c)
  then show ?case by (simp add: bind_def)
next
  case (2 c name e0 decls)
  then show ?case
    by (cases "eval_value c e0") (auto simp: bind_def)
qed

lemma eval_decls_scoped:
  "set names = set (map fst cs) \<Longrightarrow>
   (\<exists>cs'. eval_decls cs decls = Inr cs') \<longleftrightarrow> scoped names decls"
proof (induction cs decls arbitrary: names rule: eval_decls.induct)
  case (1 c)
  then show ?case by simp
next
  case (2 c name e0 decls)
  show ?case
  proof (cases "dict_contains c name")
    case True
    then show ?thesis
      using "2.prems" by (simp add: dict_contains_def)
  next
    case nd: False
    show ?thesis
    proof (cases "eval_value c e0")
      case (Inl e)
      from eval_error_unknown(1) [OF Inl] have "\<not> set (refs e0) \<subseteq> set names"
        using "2.prems" by auto
      then show ?thesis
        using Inl nd by (simp add: bind_def)
    next
      case (Inr v)
      have "set (names @ [name]) = set (map fst (dict_set c name v))"
        using "2.prems" by (simp add: dict_set_key_set)
      from "2.IH" [OF nd this] show ?thesis
        using Inr nd eval_ok_refs(1) [OF Inr] "2.prems"
        by (simp add: bind_def dict_contains_def)
    qed
  qed
qed

lemma eval_decls_error:
  "eval_decls cs decls = Inl e \<Longrightarrow>
   \<exists>pre d post. decls = pre @ d # post
     \<and> ((e = EvalError (DuplicateConstant (decl_name d))
          \<and> decl_name d \<in> set (map fst cs) \<union> set (map decl_name pre))
        \<or> (\<exists>name \<in> set (refs (decl_value d)).
              name \<notin> set (map fst cs) \<union> set (map decl_name pre)
              \<and> e = EvalError (UnknownConstant name)))"
proof (induction cs decls rule: eval_decls.induct)
  case (1 c)
  then show ?case by simp
next
  case (2 c name e0 decls)
  let ?d = "ConstDeclNode name e0"
  show ?case
  proof (cases "dict_contains c name")
    case True
    with "2.prems" have "e = EvalError (DuplicateConstant name)" by simp
    with True have "?d # decls = [] @ ?d # decls
        \<and> ((e = EvalError (DuplicateConstant (decl_name ?d))
          \<and> decl_name ?d \<in> set (map fst c) \<union> set (map decl_name []))
        \<or> (\<exists>name \<in> set (refs (decl_value ?d)).
              name \<notin> set (map fst c) \<union> set (map decl_name [])
              \<and> e = EvalError (UnknownConstant name)))"
      by (simp add: dict_contains_def)
    then show ?thesis by blast
  next
    case nd: False
    show ?thesis
    proof (cases "eval_value c e0")
      case (Inl e')
      with "2.prems" nd have "e' = e" by (simp add: bind_def)
      with eval_error_unknown(1) [OF Inl]
      have "?d # decls = [] @ ?d # decls
        \<and> ((e = EvalError (DuplicateConstant (decl_name ?d))
          \<and> decl_name ?d \<in> set (map fst c) \<union> set (map decl_name []))
        \<or> (\<exists>name \<in> set (refs (decl_value ?d)).
              name \<notin> set (map fst c) \<union> set (map decl_name [])
              \<and> e = EvalError (UnknownConstant name)))"
        by auto
      then show ?thesis by blast
    next
      case (Inr v)
      with "2.prems" nd have "eval_decls (dict_set c name v) decls = Inl e"
        by (simp add: bind_def)
      from "2.IH" [OF nd this] obtain pre d post where p: "decls = pre @ d # post"
        "(e = EvalError (DuplicateConstant (decl_name d))
          \<and> decl_name d \<in> set (map fst (dict_set c name v)) \<union> set (map decl_name pre))
        \<or> (\<exists>n \<in> set (refs (decl_value d)).
              n \<notin> set (map fst (dict_set c name v)) \<union> set (map decl_name pre)
              \<and> e = EvalError (UnknownConstant n))"
        by blast
      have "?d # decls = (?d # pre) @ d # post
        \<and> ((e = EvalError (DuplicateConstant (decl_name d))
          \<and> decl_name d \<in> set (map fst c) \<union> set (map decl_name (?d # pre)))
        \<or> (\<exists>n \<in> set (refs (decl_value d)).
              n \<notin> set (map fst c) \<union> set (map decl_name (?d # pre))
              \<and> e = EvalError (UnknownConstant n)))"
        using p by (auto simp: dict_set_key_set)
      then show ?thesis by blast
    qed
  qed
qed


lemma scoped_distinct:
  "scoped names decls \<Longrightarrow>
   distinct (map decl_name decls) \<and> set (map decl_name decls) \<inter> set names = {}"
  by (induction names decls rule: scoped.induct) auto

lemma eval_program_ok_iff:
  "(\<exists>v. eval_program (ProgramNode decls root) = Inr v)
   \<longleftrightarrow> scoped [] decls \<and> set (refs root) \<subseteq> set (map decl_name decls)"
proof
  assume "\<exists>v. eval_program (ProgramNode decls root) = Inr v"
  then obtain v cs where cs: "eval_decls [] decls = Inr cs" and v: "eval_value cs root = Inr v"
    by (auto simp: bind_def split: sum.splits)
  from cs have "scoped [] decls"
    using eval_decls_scoped [of "[]" "[]" decls] by auto
  moreover have "set (refs root) \<subseteq> set (map decl_name decls)"
    using eval_ok_refs(1) [OF v] eval_decls_keys [OF cs] by simp
  ultimately show "scoped [] decls \<and> set (refs root) \<subseteq> set (map decl_name decls)" ..
next
  assume a: "scoped [] decls \<and> set (refs root) \<subseteq> set (map decl_name decls)"
  then obtain cs where cs: "eval_decls [] decls = Inr cs"
    using eval_decls_scoped [of "[]" "[]" decls] by auto
  with a have "set (refs root) \<subseteq> set (map fst cs)"
    using eval_decls_keys [OF cs] by simp
  from eval_value_total [OF this] cs
  show "\<exists>v. eval_program (ProgramNode decls root) = Inr v"
    by (auto simp: bind_def)
qed

lemma eval_program_error:
  assumes "eval_program (ProgramNode decls root) = Inl e"
  shows "(\<exists>pre d post. decls = pre @ d # post
            \<and> e = EvalError (DuplicateConstant (decl_name d))
            \<and> decl_name d \<in> set (map decl_name pre))
       \<or> (\<exists>name. e = EvalError (UnknownConstant name)
            \<and> ((\<exists>pre d post. decls = pre @ d # post \<and> name \<in> set (refs (decl_value d))
                   \<and> name \<notin> set (map decl_name pre))
               \<or> (name \<in> set (refs root) \<and> name \<notin> set (map decl_name decls))))"
proof (cases "eval_decls [] decls")
  case (Inl e')
  with assms have "e' = e" by (simp add: bind_def)
  with eval_decls_error [OF Inl] show ?thesis
    by simp blast
next
  case (Inr cs)
  with assms have "eval_value cs root = Inl e" by (simp add: bind_def)
  from eval_error_unknown(1) [OF this] show ?thesis
    using eval_decls_keys [OF Inr] by auto
qed

text \<open>
  Claim C6, as the code has it. The symbol table that the declarations before a point
  build holds exactly their names, and a reference is resolved against it: a reference to
  any other name (a later declaration, the declaration itself, or none) evaluates to the
  unknown-constant error naming it, and a declaration that is such a reference makes the
  program fail with that error. A program evaluates if and only if no constant is
  declared twice and every reference is to a constant declared strictly before it; a
  program without repeated declarations that has any other reference fails with an
  unknown-constant error naming such a reference. (Declarations are written one after
  the other: with the semicolons of the claim's example the program is a parse error,
  see the counterexample.)
\<close>

theorem C6_forward_references:
  "(eval_decls [] pre = Inr cs \<longrightarrow>
      set (map fst cs) = set (map decl_name pre)
      \<and> (\<forall>name. name \<notin> set (map decl_name pre) \<longrightarrow>
            eval_value cs (ConstRefNode name) = Inl (EvalError (UnknownConstant name)))
      \<and> (\<forall>a b post root. a \<notin> set (map decl_name pre) \<and> b \<notin> set (map decl_name pre) \<longrightarrow>
            eval_program (ProgramNode (pre @ ConstDeclNode a (ConstRefNode b) # post) root)
              = Inl (EvalError (UnknownConstant b))))
   \<and> ((\<exists>v. eval_program (ProgramNode decls root) = Inr v)
        \<longleftrightarrow> scoped [] decls \<and> set (refs root) \<subseteq> set (map decl_name decls))
   \<and> (distinct (map decl_name decls)
        \<and> \<not> (scoped [] decls \<and> set (refs root) \<subseteq> set (map decl_name decls)) \<longrightarrow>
        (\<exists>name. eval_program (ProgramNode decls root) = Inl (EvalError (UnknownConstant name))
           \<and> ((\<exists>pre d post. decls = pre @ d # post \<and> name \<in> set (refs (decl_value d))
                  \<and> name \<notin> set (map decl_name pre))
              \<or> (name \<in> set (refs root) \<and> name \<notin> set (map decl_name decls)))))"
proof (intro conjI impI allI)
  assume cs: "eval_decls [] pre = Inr cs"
  from eval_decls_keys [OF cs] show keys: "set (map fst cs) = set (map decl_name pre)"
    by simp
  {
    fix name
    assume "name \<notin> set (map decl_name pre)"
    with keys show "eval_value cs (ConstRefNode name) = Inl (EvalError (UnknownConstant name))"
      by (intro eval_ref_unknown) simp
  }
  {
    fix a b post root
    assume "a \<notin> set (map decl_name pre) \<and> b \<notin> set (map decl_name pre)"
    with keys have "\<not> dict_contains cs a" "\<not> dict_contains cs b"
      by (simp_all add: dict_contains_def)
    then show "eval_program (ProgramNode (pre @ ConstDeclNode a (ConstRefNode b) # post) root)
        = Inl (EvalError (UnknownConstant b))"
      by (simp add: eval_decls_append cs bind_def)
  }
next
  show "(\<exists>v. eval_program (ProgramNode decls root) = Inr v)
      \<longleftrightarrow> scoped [] decls \<and> set (refs root) \<subseteq> set (map decl_name decls)"
    by (rule eval_program_ok_iff)
next
  assume a: "distinct (map decl_name decls)
      \<and> \<not> (scoped [] decls \<and> set (refs root) \<subseteq> set (map decl_name decls))"
  then have "\<not> (\<exists>v. eval_program (ProgramNode decls root) = Inr v)"
    using eval_program_ok_iff [of decls root] by blast
  then obtain e where e: "eval_program (ProgramNode decls root) = Inl e"
    by (cases "eval_program (ProgramNode decls root)") auto
  have "\<not> (\<exists>pre d post. decls = pre @ d # post \<and> decl_name d \<in> set (map decl_name pre))"
    using a by auto
  with eval_program_error [OF e] e
  show "\<exists>name. eval_program (ProgramNode decls root) = Inl (EvalError (UnknownConstant name))
           \<and> ((\<exists>pre d post. decls = pre @ d # post \<and> name \<in> set (refs (decl_value d))
                  \<and> name \<notin> set (map decl_name pre))
              \<or> (name \<in> set (refs root) \<and> name \<notin> set (map decl_name decls)))"
    by blast
qed

theorem C6_forward_references_witness:
  "eval_program (ProgramNode [ConstDeclNode (lit ''a'') (ConstRefNode (lit ''b'')),
        ConstDeclNode (lit ''b'') (NumberNode 1)] (ConstRefNode (lit ''a'')))
     = Inl (EvalError (UnknownConstant (lit ''b'')))
   \<and> translate empty_db (lit ''var a = ?[b] var b = 0x1 ?[a]'')
     = Inl (EvalError (UnknownConstant (lit ''b'')))"
proof -
  have 1: "eval_decls [] [] = Inr []" by simp
  have 2: "lit ''a'' \<notin> set (map decl_name []) \<and> lit ''b'' \<notin> set (map decl_name [])"
    by simp
  from C6_forward_references [of "[]" "[]" "[]" "NumberNode 0"] 1
  have "\<forall>a b post root. a \<notin> set (map decl_name []) \<and> b \<notin> set (map decl_name []) \<longrightarrow>
      eval_program (ProgramNode ([] @ ConstDeclNode a (ConstRefNode b) # post) root)
        = Inl (EvalError (UnknownConstant b))"
    by blast
  with 2 have "eval_program (ProgramNode ([] @ ConstDeclNode (lit ''a'') (ConstRefNode (lit ''b''))
        # [ConstDeclNode (lit ''b'') (NumberNode 1)]) (ConstRefNode (lit ''a'')))
      = Inl (EvalError (UnknownConstant (lit ''b'')))"
    by blast
  then have "eval_program (ProgramNode [ConstDeclNode (lit ''a'') (ConstRefNode (lit ''b'')),
        ConstDeclNode (lit ''b'') (NumberNode 1)] (ConstRefNode (lit ''a'')))
      = Inl (EvalError (UnknownConstant (lit ''b'')))"
    by (simp only: append_Nil)
  moreover have "translate empty_db (lit ''var a = ?[b] var b = 0x1 ?[a]'')
      = Inl (EvalError (UnknownConstant (lit ''b'')))"
    by code_simp
  ultimately show ?thesis by blast
qed

text \<open>
  The program of the claim, with its semicolons: the declarations end at the first
  semicolon, which is no value, and the program fails in the parser.
\<close>

theorem C6_example_counterexample:
  "translate empty_db (lit ''var a = ?[b]; var b = 0x1; ?[a]'')
     = Inl (ParseError (ValueExpected 1 13 SEMI))
   \<and> translate empty_db (lit ''var a = ?[b]; var b = 0x1; ?[a]'')
     \<noteq> Inl (EvalError (UnknownConstant (lit ''b'')))"
  by code_simp

text \<open>
  Claim C7, as the code has it. A program that declares a constant twice never
  evaluates. When the declarations before a declaration evaluate to a table and its name
  is among theirs, the program fails with the duplicate-constant error naming it,
  whatever its value expression is: the check comes before the expression is evaluated.
  The declarations before it evaluate when none of them repeats a name and each refers
  only to constants declared before it. (When an earlier declaration fails, its error is
  the one reported: see the counterexample.)
\<close>

theorem C7_duplicate_constant:
  "(\<not> distinct (map decl_name decls) \<longrightarrow>
      (\<exists>e. eval_program (ProgramNode decls root) = Inl e))
   \<and> (eval_decls [] pre = Inr cs \<and> decl_name d \<in> set (map decl_name pre) \<longrightarrow>
        eval_program (ProgramNode (pre @ d # post) root)
          = Inl (EvalError (DuplicateConstant (decl_name d))))
   \<and> (scoped [] pre \<longrightarrow> (\<exists>cs. eval_decls [] pre = Inr cs))"
proof (intro conjI impI)
  assume nd: "\<not> distinct (map decl_name decls)"
  have "\<not> (\<exists>v. eval_program (ProgramNode decls root) = Inr v)"
    using nd scoped_distinct [of "[]" decls] eval_program_ok_iff [of decls root] by blast
  then show "\<exists>e. eval_program (ProgramNode decls root) = Inl e"
    by (cases "eval_program (ProgramNode decls root)") auto
next
  assume a: "eval_decls [] pre = Inr cs \<and> decl_name d \<in> set (map decl_name pre)"
  then have "dict_contains cs (decl_name d)"
    using eval_decls_keys [of "[]" pre cs] by (simp add: dict_contains_def)
  then show "eval_program (ProgramNode (pre @ d # post) root)
      = Inl (EvalError (DuplicateConstant (decl_name d)))"
    using a by (cases d) (simp add: eval_decls_append bind_def)
next
  assume "scoped [] pre"
  then show "\<exists>cs. eval_decls [] pre = Inr cs"
    using eval_decls_scoped [of "[]" "[]" pre] by auto
qed


theorem C7_duplicate_constant_witness:
  "eval_program (ProgramNode ([ConstDeclNode (lit ''x'') (NumberNode 1)]
        @ ConstDeclNode (lit ''x'') (ConstRefNode (lit ''y'')) # []) (ConstRefNode (lit ''x'')))
     = Inl (EvalError (DuplicateConstant (lit ''x'')))
   \<and> translate empty_db (lit ''var x = 0x1 var x = ?[y] ?[x]'')
     = Inl (EvalError (DuplicateConstant (lit ''x'')))"
proof -
  let ?d = "ConstDeclNode (lit ''x'') (ConstRefNode (lit ''y''))"
  have "eval_decls [] [ConstDeclNode (lit ''x'') (NumberNode 1)] = Inr [(lit ''x'', VInt 1)]
      \<and> decl_name ?d \<in> set (map decl_name [ConstDeclNode (lit ''x'') (NumberNode 1)])"
    by (simp add: bind_def dict_contains_def)
  with C7_duplicate_constant [of "[]" "ConstRefNode (lit ''x'')"
      "[ConstDeclNode (lit ''x'') (NumberNode 1)]" "[(lit ''x'', VInt 1)]" ?d "[]"]
  have "eval_program (ProgramNode ([ConstDeclNode (lit ''x'') (NumberNode 1)]
        @ ?d # []) (ConstRefNode (lit ''x'')))
     = Inl (EvalError (DuplicateConstant (decl_name ?d)))"
    by blast
  then have "eval_program (ProgramNode ([ConstDeclNode (lit ''x'') (NumberNode 1)]
        @ ?d # []) (ConstRefNode (lit ''x'')))
     = Inl (EvalError (DuplicateConstant (lit ''x'')))"
    by (simp only: decl_name.simps)
  moreover have "translate empty_db (lit ''var x = 0x1 var x = ?[y] ?[x]'')
      = Inl (EvalError (DuplicateConstant (lit ''x'')))"
    by code_simp
  ultimately show ?thesis by blast
qed

text \<open>
  A program that declares \<open>x\<close> twice and fails with another error: the first
  declaration refers to an unknown constant.
\<close>

theorem C7_earlier_error_counterexample:
  "translate empty_db (lit ''var x = ?[y] var x = 0x1 ?[x]'')
     = Inl (EvalError (UnknownConstant (lit ''y'')))
   \<and> translate empty_db (lit ''var x = ?[y] var x = 0x1 ?[x]'')
     \<noteq> Inl (EvalError (DuplicateConstant (lit ''x'')))"
  by code_simp

section \<open>The lexer\<close>

lemma lexer_ok_init: "lexer_ok (Lexer_init src)"
  by (simp add: lexer_ok_def Lexer_init_def line_of_def col_of_def)

lemma line_of_Suc:
  "j < length src \<Longrightarrow> line_of src (Suc j) = (if src ! j = 10 then line_of src j + 1 else line_of src j)"
  by (simp add: line_of_def take_Suc_conv_app_nth)

lemma col_of_Suc:
  "j < length src \<Longrightarrow> col_of src (Suc j) = (if src ! j = 10 then 1 else col_of src j + 1)"
  by (simp add: col_of_def take_Suc_conv_app_nth)

lemma lexer_ok_advance1: "lexer_ok lx \<Longrightarrow> lexer_ok (advance lx (Suc 0))"
  by (auto simp: lexer_ok_def advance_one line_of_Suc col_of_Suc)

lemma lexer_ok_advance: "lexer_ok lx \<Longrightarrow> lexer_ok (advance lx n)"
proof (induction n arbitrary: lx)
  case 0
  then show ?case by simp
next
  case (Suc n)
  then show ?case
    using lexer_ok_advance1 [of lx] by (simp add: advance_Suc [of lx n])
qed

lemma lexer_ok_skip_ws: "lexer_ok lx \<Longrightarrow> lexer_ok (skip_ws U lx)"
proof (induction U lx rule: skip_ws.induct)
  case (1 U lx)
  show ?case
  proof (cases "peek lx 1 \<noteq> [] \<and> str_isspace U (peek lx 1)")
    case True
    then have "skip_ws U lx = skip_ws U (advance lx 1)"
      by (subst skip_ws.simps) (simp add: Let_def)
    then show ?thesis
      using "1.IH" True "1.prems" lexer_ok_advance [of lx 1] by simp
  next
    case False
    then have "skip_ws U lx = lx"
      by (subst skip_ws.simps) (auto simp: Let_def)
    then show ?thesis using "1.prems" by simp
  qed
qed

lemma tokenize_loop_error:
  "lexes_to U lx lx2 \<Longrightarrow> next_token U lx2 = Inl e \<Longrightarrow> tokenize_loop U lx acc = Inl e"
proof (induction arbitrary: acc rule: lexes_to.induct)
  case (here lx)
  then show ?case by (subst tokenize_loop.simps) simp
next
  case (token lx tok lx1 lx2)
  then show ?case by (subst tokenize_loop.simps) simp
qed

lemma hex_accept_peek:
  "(str_isdigit U [c] \<or> str_in (str_lower U [c]) (lit ''abcdef'')) = hex_accept U c"
  by (simp add: hex_accept_def str_isdigit_def str_lower_def)

lemma hex_loop_stop:
  assumes "peek lx 1 = [] \<or> (\<exists>c. peek lx 1 = [c] \<and> \<not> hex_accept U c)"
  shows "hex_loop U lx ds = (ds, lx)"
  using assms
  by (subst hex_loop.simps) (auto simp: Let_def hex_accept_def str_isdigit_def str_lower_def)

lemma lower_x: "c = 120 \<or> c = 88 \<Longrightarrow> str_lower U [c] = lit ''x''"
  by (auto simp: str_lower_def lower_def lit_def)

lemma next_token_no_digits:
  assumes ok: "lexer_ok lx"
    and j: "j = lx_i (skip_ws U lx)"
    and len: "j + 1 < length (lx_text lx)"
    and zero: "lx_text lx ! j = 48"
    and x: "lx_text lx ! (j + 1) = 120 \<or> lx_text lx ! (j + 1) = 88"
    and nodigit: "j + 2 = length (lx_text lx) \<or> \<not> hex_accept U (lx_text lx ! (j + 2))"
  shows "next_token U lx = Inl (LexerError (HexDigitsExpected
           (line_of (lx_text lx) j) (col_of (lx_text lx) j + 2)))"
proof -
  let ?l = "skip_ws U lx"
  let ?t = "lx_text lx"
  have lok: "lexer_ok ?l" using ok by (rule lexer_ok_skip_ws)
  have t: "lx_text ?l = ?t" by simp
  have p1: "peek ?l 1 = lit ''0''"
    using len zero j by (simp add: peek_def lit_def)
  have p2: "str_lower U (peek ?l 2) = lit ''x''"
    using len x j lower_x [of "?t ! (j + 1)" U] by (simp add: peek_def)
  have s: "single (peek ?l 1) = None"
    using p1 by (simp add: single_def lit_def)
  have nt: "next_token U lx = lex_hex U ?l"
    using p1 p2 s by (simp add: next_token_def Let_def lit_def)
  let ?a = "advance ?l 2"
  have a1: "advance ?l (Suc 0) = ?l\<lparr>lx_i := j + 1, lx_col := lx_col ?l + 1\<rparr>"
    using len zero j by (simp add: advance_one)
  have a2: "?a = ?l\<lparr>lx_i := j + 2, lx_col := lx_col ?l + 2\<rparr>"
    using len x j a1
    by (auto simp: numeral_2_eq_2 advance_Suc [of ?l "Suc 0"] advance_one)
  have pk: "peek ?a 1 = [] \<or> (\<exists>c. peek ?a 1 = [c] \<and> \<not> hex_accept U c)"
    using nodigit len by (auto simp: a2 peek_def)
  have hl: "hex_loop U ?a [] = ([], ?a)"
    using pk by (rule hex_loop_stop)
  have "lex_hex U ?l = Inl (LexerError (HexDigitsExpected (lx_line ?a) (lx_col ?a)))"
    using p1 p2 hl by (simp add: lex_hex_def Let_def)
  moreover have "lx_line ?a = line_of ?t j" "lx_col ?a = col_of ?t j + 2"
    using lok j by (simp_all add: a2 lexer_ok_def)
  ultimately show ?thesis using nt by simp
qed


lemma lexer_ok_hex_loop: "hex_loop U lx ds = (w, lx1) \<Longrightarrow> lexer_ok lx \<Longrightarrow> lexer_ok lx1"
proof (induction U lx ds rule: hex_loop.induct)
  case (1 U lx ds)
  let ?c = "peek lx 1 \<noteq> [] \<and> (str_isdigit U (peek lx 1) \<or> str_in (str_lower U (peek lx 1)) (lit ''abcdef''))"
  show ?case
  proof (cases ?c)
    case True
    then have "hex_loop U (advance lx 1) (ds @ peek lx 1) = (w, lx1)"
      using "1.prems"(1) by (subst (asm) hex_loop.simps) (simp add: Let_def)
    then show ?thesis
      using "1.IH" True "1.prems"(2) lexer_ok_advance [of lx 1] by simp
  next
    case False
    then show ?thesis
      using "1.prems" by (subst (asm) hex_loop.simps) (auto simp: Let_def)
  qed
qed

lemma lexer_ok_ident_loop: "ident_loop U lx s = (w, lx1) \<Longrightarrow> lexer_ok lx \<Longrightarrow> lexer_ok lx1"
proof (induction U lx s rule: ident_loop.induct)
  case (1 U lx s)
  show ?case
  proof (cases "peek lx 1 \<noteq> [] \<and> str_isalnum U (peek lx 1)")
    case True
    then have "ident_loop U (advance lx 1) (s @ peek lx 1) = (w, lx1)"
      using "1.prems"(1) by (subst (asm) ident_loop.simps) (simp add: Let_def)
    then show ?thesis
      using "1.IH" True "1.prems"(2) lexer_ok_advance [of lx 1] by simp
  next
    case False
    then show ?thesis
      using "1.prems" by (subst (asm) ident_loop.simps) (auto simp: Let_def)
  qed
qed

lemma lexer_ok_next_token:
  assumes "next_token U lx = Inr (tok, lx1)" and "lexer_ok lx"
  shows "lexer_ok lx1"
proof -
  let ?l = "skip_ws U lx"
  have lok: "lexer_ok ?l" using assms(2) by (rule lexer_ok_skip_ws)
  show ?thesis
  proof (cases "peek ?l 1 = []")
    case True
    then show ?thesis using assms(1) lok by (simp add: next_token_def Let_def)
  next
    case ne: False
    show ?thesis
    proof (cases "single (peek ?l 1)")
      case (Some k)
      then have "lx1 = advance ?l 1"
        using assms(1) ne by (simp add: next_token_def Let_def)
      then show ?thesis using lok lexer_ok_advance by simp
    next
      case None
      show ?thesis
      proof (cases "peek ?l 1 = lit ''0'' \<and> str_lower U (peek ?l 2) = lit ''x''")
        case True
        then have h: "lex_hex U ?l = Inr (tok, lx1)"
          using assms(1) ne None by (simp add: next_token_def Let_def)
        obtain w l where loop: "hex_loop U (advance ?l 2) [] = (w, l)"
          by (cases "hex_loop U (advance ?l 2) []")
        with h have "l = lx1"
          by (auto simp: lex_hex_def Let_def split: if_splits)
        then show ?thesis
          using lexer_ok_hex_loop [OF loop] lexer_ok_advance [OF lok] by simp
      next
        case False
        then have h: "lex_ident_or_kw U ?l = Inr (tok, lx1)"
          using assms(1) ne None by (auto simp: next_token_def Let_def split: if_splits)
        obtain w l where loop: "ident_loop U ?l [] = (w, l)"
          by (cases "ident_loop U ?l []")
        with h have "l = lx1"
          by (auto simp: lex_ident_or_kw_def Let_def split: if_splits)
        then show ?thesis
          using lexer_ok_ident_loop [OF loop lok] by simp
      qed
    qed
  qed
qed

lemma next_token_text: "next_token U lx = Inr (tok, lx1) \<Longrightarrow> lx_text lx1 = lx_text lx"
proof (cases "tok_kind tok = EOF")
  case True
  assume a: "next_token U lx = Inr (tok, lx1)"
  let ?l = "skip_ws U lx"
  have "lx1 = ?l"
  proof (cases "peek ?l 1 = []")
    case True
    then show ?thesis using a by (simp add: next_token_def Let_def)
  next
    case ne: False
    have "tok_kind tok \<noteq> EOF"
      using a ne
      by (auto simp: next_token_def Let_def mkToken_def single_def lex_hex_def
          lex_ident_or_kw_def split: if_splits option.splits prod.splits)
    with True show ?thesis by simp
  qed
  then show ?thesis by simp
next
  case False
  assume "next_token U lx = Inr (tok, lx1)"
  from next_token_progress [OF this False] show ?thesis by simp
qed

lemma lexes_to_ok:
  "lexes_to U lx lx2 \<Longrightarrow> lexer_ok lx \<Longrightarrow> lexer_ok lx2 \<and> lx_text lx2 = lx_text lx"
proof (induction rule: lexes_to.induct)
  case (here lx)
  then show ?case by simp
next
  case (token lx tok lx1 lx2)
  then show ?case
    using lexer_ok_next_token [of U lx tok lx1] next_token_text [of U lx tok lx1] by simp
qed

lemma str_in_abcdef: "str_in [d] (lit ''abcdef'') \<longleftrightarrow> 97 \<le> d \<and> d \<le> 102"
proof -
  have "str_in [d] (lit ''abcdef'') \<longleftrightarrow> d \<in> {97, 98, 99, 100, 101, 102}"
    by (simp add: str_in_def lit_def)
  also have "\<dots> \<longleftrightarrow> 97 \<le> d \<and> d \<le> 102"
    by auto
  finally show ?thesis .
qed

lemma hex_accept_latin1:
  "c < 256 \<Longrightarrow> hex_accept U c \<longleftrightarrow>
     (48 \<le> c \<and> c \<le> 57) \<or> (97 \<le> c \<and> c \<le> 102) \<or> (65 \<le> c \<and> c \<le> 70)
     \<or> c = 178 \<or> c = 179 \<or> c = 185"
  by (auto simp: hex_accept_def isdigit_def lower_def str_in_abcdef)

text \<open>
  Claim C2, as the code has it. When \<open>tokenize\<close> comes to a token that starts with
  \<open>0x\<close> or \<open>0X\<close> at index \<open>j\<close> (after the whitespace before it), and what follows
  the prefix is the end of the text or a character that fails the digit test of
  \<open>lex_hex\<close>, it raises the lexical error for missing digits with the line of the \<open>0\<close>
  and its column plus two: the position after the prefix, where the first digit was
  expected. Below 256 the characters that pass the test are \<open>[0-9a-fA-F]\<close> and the three
  superscript digits (lemma \<open>hex_accept_latin1\<close>).
\<close>

theorem C2_no_hex_digits:
  assumes "lexes_to U (Lexer_init src) lx"
    and "j = lx_i (skip_ws U lx)"
    and "j + 1 < length src"
    and "src ! j = 48"
    and "src ! (j + 1) = 120 \<or> src ! (j + 1) = 88"
    and "j + 2 = length src \<or> \<not> hex_accept U (src ! (j + 2))"
  shows "tokenize U src
    = Inl (LexerError (HexDigitsExpected (line_of src j) (col_of src j + 2)))"
proof -
  from lexes_to_ok [OF assms(1) lexer_ok_init]
  have ok: "lexer_ok lx" and t: "lx_text lx = src"
    by (simp_all add: Lexer_init_def)
  have "next_token U lx
      = Inl (LexerError (HexDigitsExpected (line_of (lx_text lx) j) (col_of (lx_text lx) j + 2)))"
    using assms(2-6) by (intro next_token_no_digits [OF ok]) (simp_all add: t)
  from tokenize_loop_error [OF assms(1) this] show ?thesis
    by (simp add: tokenize_def t)
qed


theorem C2_no_hex_digits_witness:
  "tokenize empty_db ([10, 32] @ lit ''0Xg'') = Inl (LexerError (HexDigitsExpected 2 4))
   \<and> line_of ([10, 32] @ lit ''0Xg'') 2 = 2 \<and> col_of ([10, 32] @ lit ''0Xg'') 2 = 2"
proof -
  let ?src = "[10, 32] @ lit ''0Xg''"
  have j: "2 = lx_i (skip_ws empty_db (Lexer_init ?src))"
    by code_simp
  have pos: "line_of ?src 2 = 2" "col_of ?src 2 = 2"
    by (simp_all add: line_of_def col_of_def lit_def)
  have "tokenize empty_db ?src
      = Inl (LexerError (HexDigitsExpected (line_of ?src 2) (col_of ?src 2 + 2)))"
    by (rule C2_no_hex_digits [OF lexes_to.here j])
       (simp_all add: lit_def hex_accept_latin1)
  then show ?thesis
    using pos by simp
qed

text \<open>
  The text of the claim: the \<open>0\<close> of \<open>0xg\<close> is at line 1, column 1, and the error
  reports line 1, column 3.
\<close>

theorem C2_position_counterexample:
  "tokenize empty_db (lit ''0xg'') = Inl (LexerError (HexDigitsExpected 1 3))
   \<and> tokenize empty_db (lit ''0xg'') \<noteq> Inl (LexerError (HexDigitsExpected 1 1))"
  by code_simp

text \<open>
  Claim C4 at the text \<open>0x\<close> followed by the superscript two (U+00B2). \<open>str.isdigit\<close>
  holds for that character, so \<open>lex_hex\<close> takes it as a digit and returns a hexadecimal
  token; \<open>int\<close> then rejects the digit string, and the run ends with the status of an
  internal error instead of a lexical error.
\<close>

theorem C4_superscript_digit:
  "\<not> is_hex_digit 178 \<and> hex_accept U 178
   \<and> tokenize U [48, 120, 178] = Inr [mkToken HEX [178] 1 1, mkToken EOF [] 1 4]
   \<and> translate U [48, 120, 178] = Inl ValueError
   \<and> exit_code (translate U [48, 120, 178]) = 3"
proof -
  have "\<not> is_hex_digit 178" by (simp add: is_hex_digit_def)
  moreover have "hex_accept U 178" by (simp add: hex_accept_latin1)
  moreover have "tokenize U [48, 120, 178] = Inr [mkToken HEX [178] 1 1, mkToken EOF [] 1 4]"
    by code_simp
  moreover have "translate U [48, 120, 178] = Inl ValueError"
    by code_simp
  ultimately show ?thesis by simp
qed

lemma positional_Nil [simp]: "positional b [] = 0"
  by (simp add: positional_def)

lemma positional_snoc: "positional b (vs @ [v]) = b * positional b vs + v"
proof -
  have "(\<Sum>i < length vs. (vs @ [v]) ! i * b ^ (length vs - i))
      = (\<Sum>i < length vs. b * (vs ! i * b ^ (length vs - 1 - i)))"
  proof (rule sum.cong)
    fix i assume "i \<in> {..<length vs}"
    then have i: "i < length vs" by simp
    then have "length vs - i = Suc (length vs - 1 - i)" by simp
    then show "(vs @ [v]) ! i * b ^ (length vs - i) = b * (vs ! i * b ^ (length vs - 1 - i))"
      using i by (simp add: nth_append)
  qed simp
  then show ?thesis
    by (simp add: positional_def sum_distrib_left)
qed

lemma positional_Cons: "positional b (v # vs) = v * b ^ length vs + positional b vs"
proof (induction vs arbitrary: v rule: rev_induct)
  case Nil
  then show ?case by (simp add: positional_def)
next
  case (snoc x xs)
  have "positional b (v # xs @ [x]) = b * positional b (v # xs) + x"
    using positional_snoc [of b "v # xs" x] by simp
  then show ?case
    by (simp add: snoc positional_snoc algebra_simps)
qed

lemma hex_digit_value_ascii:
  "is_hex_digit c \<Longrightarrow> hex_digit_value U c = Some (hexval c)"
  by (auto simp: is_hex_digit_def hex_digit_value_def hexval_def)

lemma int16_from_hex:
  "\<forall>c \<in> set ds. is_hex_digit c \<Longrightarrow>
   int16_from U acc ds = Inr (acc * 16 ^ length ds + int (hex_interp ds))"
proof (induction ds arbitrary: acc)
  case Nil
  then show ?case by (simp add: hex_interp_def)
next
  case (Cons c ds)
  then show ?case
    by (simp add: hex_digit_value_ascii hex_interp_def positional_Cons algebra_simps)
qed

lemma int16_hex:
  "ds \<noteq> [] \<Longrightarrow> \<forall>c \<in> set ds. is_hex_digit c \<Longrightarrow> int16 U ds = Inr (int (hex_interp ds))"
  by (simp add: int16_def int16_from_hex)

lemma dec_digits_interp: "dec_interp (dec_digits n) = n"
proof (induction n rule: dec_digits.induct)
  case (1 n)
  show ?case
  proof (cases "n < 10")
    case True
    then show ?thesis
      by (subst dec_digits.simps) (simp add: dec_interp_def positional_Cons)
  next
    case False
    then have "dec_interp (dec_digits n) = 10 * dec_interp (dec_digits (n div 10)) + n mod 10"
      by (subst dec_digits.simps) (simp add: dec_interp_def positional_snoc)
    then show ?thesis
      using "1.IH" False by simp
  qed
qed

lemma dec_digits_no_leading_zero: "0 < n \<Longrightarrow> hd (dec_digits n) \<noteq> 48"
proof (induction n rule: dec_digits.induct)
  case (1 n)
  show ?case
  proof (cases "n < 10")
    case True
    then show ?thesis
      using "1.prems" by (subst dec_digits.simps) simp
  next
    case False
    then have "dec_digits n = dec_digits (n div 10) @ [48 + n mod 10]"
      by (subst dec_digits.simps) simp
    moreover have "dec_digits (n div 10) \<noteq> []"
      by (subst dec_digits.simps) simp
    ultimately show ?thesis
      using "1.IH" False by simp
  qed
qed


lemma is_hex_digit_accept: "is_hex_digit c \<Longrightarrow> hex_accept U c \<and> c \<noteq> 10"
  using hex_accept_latin1 [of c U] by (auto simp: is_hex_digit_def)

lemma skip_ws_stop:
  assumes "peek lx 1 = [] \<or> (\<exists>c. peek lx 1 = [c] \<and> \<not> isspace U c)"
  shows "skip_ws U lx = lx"
  using assms by (subst skip_ws.simps) (auto simp: Let_def str_isspace_def)

lemma hex_loop_run:
  assumes "lx_text lx = pre @ ds @ rest" and "lx_i lx = length pre"
    and "\<forall>c \<in> set ds. hex_accept U c \<and> c \<noteq> 10"
    and "rest = [] \<or> \<not> hex_accept U (hd rest)"
  shows "hex_loop U lx acc
    = (acc @ ds, lx\<lparr>lx_i := length pre + length ds, lx_col := lx_col lx + length ds\<rparr>)"
  using assms
proof (induction ds arbitrary: pre lx acc)
  case Nil
  have "peek lx 1 = [] \<or> (\<exists>c. peek lx 1 = [c] \<and> \<not> hex_accept U c)"
    using Nil by (cases rest) (auto simp: peek_def)
  then have "hex_loop U lx acc = (acc, lx)" by (rule hex_loop_stop)
  moreover have "lx\<lparr>lx_i := length pre, lx_col := lx_col lx\<rparr> = lx"
    using Nil(2) by simp
  ultimately show ?case by simp
next
  case (Cons c ds)
  have pk: "peek lx 1 = [c]"
    using Cons.prems(1,2) by (simp add: peek_def)
  have acc: "hex_accept U c" "c \<noteq> 10"
    using Cons.prems(3) by simp_all
  let ?l = "lx\<lparr>lx_i := length pre + 1, lx_col := lx_col lx + 1\<rparr>"
  have adv: "advance lx 1 = ?l"
    using Cons.prems(1,2) acc(2) by (simp add: advance_one)
  have step: "hex_loop U lx acc = hex_loop U ?l (acc @ [c])"
    using pk acc(1) adv
    by (subst hex_loop.simps) (simp add: Let_def hex_accept_peek)
  have "hex_loop U ?l (acc @ [c])
      = ((acc @ [c]) @ ds, ?l\<lparr>lx_i := length (pre @ [c]) + length ds,
            lx_col := lx_col ?l + length ds\<rparr>)"
    using Cons.prems by (intro Cons.IH) simp_all
  with step show ?case by simp
qed

lemma next_token_hex:
  assumes l: "l = skip_ws U lx"
    and tx: "lx_text l = pre @ [48, x] @ ds @ rest" and i: "lx_i l = length pre"
    and x: "x = 120 \<or> x = 88"
    and ds: "ds \<noteq> []" "\<forall>c \<in> set ds. is_hex_digit c"
    and rest: "rest = [] \<or> \<not> hex_accept U (hd rest)"
  shows "next_token U lx = Inr (mkToken HEX ds (lx_line l) (lx_col l),
      l\<lparr>lx_i := length pre + 2 + length ds, lx_col := lx_col l + 2 + length ds\<rparr>)"
proof -
  have p1: "peek l 1 = lit ''0''"
    using tx i by (simp add: peek_def lit_def)
  have p2: "str_lower U (peek l 2) = lit ''x''"
    using tx i x lower_x [of x U] by (simp add: peek_def nth_append)
  have s: "single (peek l 1) = None"
    using p1 by (simp add: single_def lit_def)
  have nt: "next_token U lx = lex_hex U l"
    using p1 p2 s l by (simp add: next_token_def Let_def lit_def)
  let ?a = "l\<lparr>lx_i := length pre + 2, lx_col := lx_col l + 2\<rparr>"
  have a1: "advance l (Suc 0) = l\<lparr>lx_i := length pre + 1, lx_col := lx_col l + 1\<rparr>"
    using tx i by (simp add: advance_one)
  have a2: "advance l 2 = ?a"
    using tx i x a1
    by (auto simp: numeral_2_eq_2 advance_Suc [of l "Suc 0"] advance_one nth_append)
  have "hex_loop U ?a [] = ([] @ ds, ?a\<lparr>lx_i := length (pre @ [48, x]) + length ds,
      lx_col := lx_col ?a + length ds\<rparr>)"
    using tx ds(2) rest is_hex_digit_accept
    by (intro hex_loop_run [where rest = rest]) auto
  then have hl: "hex_loop U (advance l 2) []
      = (ds, l\<lparr>lx_i := length pre + 2 + length ds, lx_col := lx_col l + 2 + length ds\<rparr>)"
    by (simp add: a2)
  show ?thesis
    using p1 p2 hl ds(1) by (simp add: nt lex_hex_def Let_def)
qed

lemma next_token_eof:
  assumes "l = skip_ws U lx" and "lx_i l \<ge> length (lx_text l)"
  shows "next_token U lx = Inr (mkToken EOF [] (lx_line l) (lx_col l), l)"
proof -
  have "peek l 1 = []" using assms(2) by (simp add: peek_def)
  then show ?thesis
    using assms(1) by (simp add: next_token_def Let_def)
qed

lemma tokenize_hex_literal:
  assumes x: "x = 120 \<or> x = 88" and ds: "ds \<noteq> []" "\<forall>c \<in> set ds. is_hex_digit c"
  shows "tokenize U ([48, x] @ ds)
    = Inr [mkToken HEX ds 1 1, mkToken EOF [] 1 (3 + length ds)]"
proof -
  let ?src = "[48, x] @ ds"
  let ?lx = "Lexer_init ?src"
  have sk: "skip_ws U ?lx = ?lx"
    by (rule skip_ws_stop) (simp add: peek_def Lexer_init_def isspace_def)
  let ?l2 = "?lx\<lparr>lx_i := 2 + length ds, lx_col := 3 + length ds\<rparr>"
  have "next_token U ?lx = Inr (mkToken HEX ds (lx_line ?lx) (lx_col ?lx),
      ?lx\<lparr>lx_i := length ([] :: pystr) + 2 + length ds, lx_col := lx_col ?lx + 2 + length ds\<rparr>)"
  proof (rule next_token_hex [where rest = "[]" and x = x])
    show "?lx = skip_ws U ?lx" using sk by simp
  qed (use x ds in \<open>simp_all add: Lexer_init_def\<close>)
  then have n1: "next_token U ?lx = Inr (mkToken HEX ds 1 1, ?l2)"
    by (simp add: Lexer_init_def)
  have sk2: "skip_ws U ?l2 = ?l2"
    by (rule skip_ws_stop) (simp add: peek_def Lexer_init_def)
  have "next_token U ?l2 = Inr (mkToken EOF [] (lx_line ?l2) (lx_col ?l2), ?l2)"
  proof (rule next_token_eof)
    show "?l2 = skip_ws U ?l2" using sk2 by simp
  qed (simp add: Lexer_init_def)
  then have n2: "next_token U ?l2 = Inr (mkToken EOF [] 1 (3 + length ds), ?l2)"
    by (simp add: Lexer_init_def)
  have t2: "tokenize_loop U ?l2 [mkToken HEX ds 1 1]
      = Inr [mkToken HEX ds 1 1, mkToken EOF [] 1 (3 + length ds)]"
    using n2 by (subst tokenize_loop.simps) (simp add: mkToken_def)
  have "tokenize_loop U ?lx [] = tokenize_loop U ?l2 [mkToken HEX ds 1 1]"
    using n1 by (subst tokenize_loop.simps) (simp add: mkToken_def)
  with t2 show ?thesis
    by (simp add: tokenize_def)
qed


lemma parse_value_hex:
  assumes "i < length tokens" and "tok_kind (tokens ! i) = HEX"
    and "tok_value (tokens ! i) = ds" and "ds \<noteq> []" and "\<forall>c \<in> set ds. is_hex_digit c"
  shows "parse_value U (Suc n) tokens i = Inr (NumberNode (int (hex_interp ds)), i + 1)"
  using assms
  by (simp add: Parser_peek_def Parser_advance_def bind_def int16_hex)

lemma parse_program_hex:
  assumes "ds \<noteq> []" and "\<forall>c \<in> set ds. is_hex_digit c"
  shows "parse_program U [mkToken HEX ds l1 c1, mkToken EOF [] l2 c2]
    = Inr (ProgramNode [] (NumberNode (int (hex_interp ds))))"
proof -
  let ?toks = "[mkToken HEX ds l1 c1, mkToken EOF [] l2 c2]"
  have 1: "parse_consts_loop U (Suc n) ?toks 0 [] = Inr ([], 0)" for n
    by (simp add: Parser_peek_def bind_def mkToken_def)
  have 2: "parse_value U (Suc n) ?toks 0 = Inr (NumberNode (int (hex_interp ds)), 0 + 1)" for n
    using assms by (intro parse_value_hex) (simp_all add: mkToken_def)
  have 3: "expect ?toks 1 EOF = Inr (mkToken EOF [] l2 c2, 2)"
    by (simp add: expect_def Parser_peek_def Parser_advance_def bind_def mkToken_def)
  have "parse_program_steps U (Suc n) ?toks
      = Inr (ProgramNode [] (NumberNode (int (hex_interp ds))))" for n
    using 1 [of n] 2 [of n] 3
    by (simp add: parse_program_steps_def bind_def
        del: parse_value.simps parse_consts_loop.simps)
  moreover have "length ?toks + 2 = Suc 3" by simp
  ultimately show ?thesis
    by (simp only: parse_program_def)
qed

lemma dec_interp_snoc: "dec_interp (s @ [c]) = 10 * dec_interp s + (c - 48)"
  by (simp add: dec_interp_def positional_snoc)

lemma dec_interp_positive:
  "s \<noteq> [] \<Longrightarrow> list_all (\<lambda>c. 48 \<le> c \<and> c \<le> 57) s \<Longrightarrow> hd s \<noteq> 48 \<Longrightarrow> 0 < dec_interp s"
proof (induction s rule: rev_induct)
  case Nil
  then show ?case by simp
next
  case (snoc c s)
  show ?case
  proof (cases "s = []")
    case True
    with snoc.prems show ?thesis
      by (simp add: dec_interp_def positional_Cons)
  next
    case False
    with snoc have "0 < dec_interp s" by simp
    then show ?thesis by (simp add: dec_interp_snoc)
  qed
qed

text \<open>A decimal numeral is the digit string of the number it reads as.\<close>

lemma decimal_numeral_digits: "decimal_numeral s \<Longrightarrow> s = dec_digits (dec_interp s)"
proof (induction s rule: rev_induct)
  case Nil
  then show ?case by (simp add: decimal_numeral_def)
next
  case (snoc c s)
  define d where "d = c - 48"
  from snoc.prems have c: "c = 48 + d" and d: "d < 10"
    by (auto simp: decimal_numeral_def d_def)
  have interp: "dec_interp (s @ [c]) = 10 * dec_interp s + d"
    by (simp add: dec_interp_snoc d_def)
  show ?case
  proof (cases "s = []")
    case True
    have "dec_digits d = [c]"
      using d c by (subst dec_digits.simps) simp
    with True interp show ?thesis
      by (simp add: dec_interp_def)
  next
    case False
    with snoc.prems have hd: "hd s \<noteq> 48" and dg: "list_all (\<lambda>c. 48 \<le> c \<and> c \<le> 57) s"
      by (auto simp: decimal_numeral_def)
    then have num: "decimal_numeral s"
      using False by (simp add: decimal_numeral_def)
    have pos: "0 < dec_interp s"
      using False dg hd by (rule dec_interp_positive)
    let ?n = "10 * dec_interp s + d"
    have "\<not> ?n < 10" using pos by simp
    then have "dec_digits ?n = dec_digits (?n div 10) @ [48 + ?n mod 10]"
      by (subst dec_digits.simps) simp
    moreover have "?n div 10 = dec_interp s" "48 + ?n mod 10 = c"
      using d c by simp_all
    ultimately have "dec_digits ?n = dec_digits (dec_interp s) @ [c]"
      by simp
    with snoc.IH [OF num] interp show ?thesis
      by simp
  qed
qed

lemma dec_digits_numeral: "decimal_numeral (dec_digits n)"
proof (cases "n = 0")
  case True
  have "dec_digits 0 = [48]" by (subst dec_digits.simps) simp
  with True show ?thesis by (simp add: decimal_numeral_def)
next
  case False
  then have "hd (dec_digits n) \<noteq> 48"
    by (simp add: dec_digits_no_leading_zero)
  then show ?thesis
    using dec_digits_last [of n] dec_digits_range [of _ n]
    by (auto simp: decimal_numeral_def list_all_iff)
qed

lemma str_of_int_nat:
  "str_of_int (int n)
     = (if n < 10 ^ int_max_str_digits then Inr (dec_digits n) else Inl ValueError)"
proof -
  have "0 < int_max_str_digits" by (simp add: int_max_str_digits_def)
  from dec_digits_length [OF this, of n] show ?thesis
    by (auto simp: str_of_int_def Let_def not_less)
qed

lemma hexval_digit: "is_hex_digit c \<Longrightarrow> hexval c < 16"
  by (auto simp: is_hex_digit_def hexval_def)

lemma hex_interp_upper: "\<forall>c \<in> set ds. is_hex_digit c \<Longrightarrow> hex_interp ds < 16 ^ length ds"
proof (induction ds rule: rev_induct)
  case Nil
  then show ?case by (simp add: hex_interp_def)
next
  case (snoc c ds)
  then have "hex_interp ds < 16 ^ length ds" "hexval c < 16"
    by (simp_all add: hexval_digit)
  then have "16 * hex_interp ds + hexval c < 16 * 16 ^ length ds"
    by simp
  then show ?case
    by (simp add: hex_interp_def positional_snoc)
qed

lemma hex_interp_lower: "16 ^ length ds \<le> hex_interp (49 # ds)"
  by (simp add: hex_interp_def positional_Cons hexval_def)

lemma pow_16_le_10: "(16::nat) ^ (35 * m) \<le> 10 ^ (43 * m)"
proof -
  have "(16::nat) ^ 35 \<le> 10 ^ 43" by simp
  then have "((16::nat) ^ 35) ^ m \<le> (10 ^ 43) ^ m"
    by (rule power_mono) simp
  then show ?thesis by (simp only: power_mult)
qed

lemma pow_10_le_16: "(10::nat) ^ (43 * m) \<le> 16 ^ (36 * m)"
proof -
  have "(10::nat) ^ 43 \<le> 16 ^ 36" by simp
  then have "((10::nat) ^ 43) ^ m \<le> (16 ^ 36) ^ m"
    by (rule power_mono) simp
  then show ?thesis by (simp only: power_mult)
qed

lemma int_max_str_digits_100: "int_max_str_digits = 43 * 100"
  by (simp add: int_max_str_digits_def)

lemma short_literal_fits:
  assumes "\<forall>c \<in> set ds. is_hex_digit c" and "length ds \<le> 35 * 100"
  shows "hex_interp ds < 10 ^ int_max_str_digits"
proof -
  have "hex_interp ds < 16 ^ length ds"
    using assms(1) by (rule hex_interp_upper)
  also have "(16::nat) ^ length ds \<le> 16 ^ (35 * 100)"
    using assms(2) by (intro power_increasing) simp_all
  also have "\<dots> \<le> 10 ^ (43 * 100)"
    by (rule pow_16_le_10)
  finally show ?thesis
    by (simp only: int_max_str_digits_100)
qed

lemma long_literal_exceeds:
  assumes "36 * 100 \<le> length ds"
  shows "10 ^ int_max_str_digits \<le> hex_interp (49 # ds)"
proof -
  have "(10::nat) ^ (43 * 100) \<le> 16 ^ (36 * 100)"
    by (rule pow_10_le_16)
  also have "\<dots> \<le> 16 ^ length ds"
    using assms by (intro power_increasing) simp_all
  also have "\<dots> \<le> hex_interp (49 # ds)"
    by (rule hex_interp_lower)
  finally show ?thesis
    by (simp only: int_max_str_digits_100)
qed

lemma evaluate_hex_literal:
  assumes "x = 120 \<or> x = 88" and "ds \<noteq> []" and "\<forall>c \<in> set ds. is_hex_digit c"
  shows "bind (tokenize U ([48, x] @ ds)) (\<lambda>tokens. bind (parse_program U tokens) eval_program)
    = Inr (VInt (int (hex_interp ds)))"
  unfolding tokenize_hex_literal [OF assms]
  by (simp add: bind_def parse_program_hex [OF assms(2,3)])

lemma translate_hex_literal:
  assumes "x = 120 \<or> x = 88" and "ds \<noteq> []" and "\<forall>c \<in> set ds. is_hex_digit c"
  shows "translate U ([48, x] @ ds)
    = (if hex_interp ds < 10 ^ int_max_str_digits
       then Inr (lit ''value = '' @ dec_digits (hex_interp ds) @ [10])
       else Inl ValueError)"
  unfolding translate_def tokenize_hex_literal [OF assms]
  by (simp add: bind_def parse_program_hex [OF assms(2,3)] str_of_int_nat)

lemma translate_long_literal:
  assumes "36 * 100 \<le> n"
  shows "translate U ([48, 120] @ 49 # replicate n 48) = Inl ValueError"
proof -
  have "\<forall>c \<in> set (49 # replicate n 48). is_hex_digit c"
    by (auto simp: is_hex_digit_def)
  then have "translate U ([48, 120] @ 49 # replicate n 48)
      = (if hex_interp (49 # replicate n 48) < 10 ^ int_max_str_digits
         then Inr (lit ''value = '' @ dec_digits (hex_interp (49 # replicate n 48)) @ [10])
         else Inl ValueError)"
    by (intro translate_hex_literal) simp_all
  moreover have "10 ^ int_max_str_digits \<le> hex_interp (49 # replicate n 48)"
    using assms by (intro long_literal_exceeds) simp
  ultimately show ?thesis
    by (simp only: not_less [symmetric] if_False)
qed

text \<open>
  Claim C3, as the code has it. For a literal \<open>0x\<close> or \<open>0X\<close> followed by one or more
  characters of \<open>[0-9a-fA-F]\<close>, of any length: as a whole program it is lexed to one
  hexadecimal token with exactly those digits, and it is parsed and evaluated to the
  integer that is the base-16 value of the digits. When that value is below
  \<open>10 ^ 4300\<close>, that is, has at most 4300 decimal digits, which holds for every literal
  of at most 3500 digits, the output is \<open>value = \<close>, the decimal numeral of the value
  and a newline: the one string of decimal digits without a leading zero (the string
  \<open>0\<close> apart) that reads back in base 10 as the value. For a greater value \<open>str\<close>
  raises \<open>ValueError\<close> and nothing is emitted. Anywhere in a text, the lexer returns the
  token with those digits when no accepted digit follows them; the parser turns every
  such token into the number node of that value, which evaluates to itself and is
  rendered by \<open>str\<close>.
\<close>

theorem C3_hex_literal:
  assumes "x = 120 \<or> x = 88" and "ds \<noteq> []" and "\<forall>c \<in> set ds. is_hex_digit c"
  shows "tokenize U ([48, x] @ ds)
       = Inr [mkToken HEX ds 1 1, mkToken EOF [] 1 (3 + length ds)]
     \<and> bind (tokenize U ([48, x] @ ds)) (\<lambda>tokens. bind (parse_program U tokens) eval_program)
       = Inr (VInt (int (hex_interp ds)))
     \<and> (hex_interp ds < 10 ^ int_max_str_digits \<longrightarrow>
          (\<exists>s. translate U ([48, x] @ ds) = Inr (lit ''value = '' @ s @ [10])
             \<and> emit_value (VInt (int (hex_interp ds))) = Inr s
             \<and> decimal_numeral s \<and> dec_interp s = hex_interp ds
             \<and> (\<forall>t. decimal_numeral t \<and> dec_interp t = hex_interp ds \<longrightarrow> t = s)))
     \<and> (10 ^ int_max_str_digits \<le> hex_interp ds \<longrightarrow>
          translate U ([48, x] @ ds) = Inl ValueError
          \<and> emit_value (VInt (int (hex_interp ds))) = Inl ValueError)
     \<and> (length ds \<le> 3500 \<longrightarrow> hex_interp ds < 10 ^ int_max_str_digits)
     \<and> (\<forall>lx pre rest.
          lx_text (skip_ws U lx) = pre @ [48, x] @ ds @ rest \<and> lx_i (skip_ws U lx) = length pre
          \<and> (rest = [] \<or> \<not> hex_accept U (hd rest)) \<longrightarrow>
          (\<exists>lx1. next_token U lx
             = Inr (mkToken HEX ds (lx_line (skip_ws U lx)) (lx_col (skip_ws U lx)), lx1)))
     \<and> (\<forall>n tokens i. i < length tokens \<and> tok_kind (tokens ! i) = HEX
          \<and> tok_value (tokens ! i) = ds \<longrightarrow>
          parse_value U (Suc n) tokens i = Inr (NumberNode (int (hex_interp ds)), i + 1))
     \<and> eval_value cs (NumberNode (int (hex_interp ds))) = Inr (VInt (int (hex_interp ds)))
     \<and> emit_value (VInt (int (hex_interp ds))) = str_of_int (int (hex_interp ds))
     \<and> int_max_str_digits = 4300"
proof -
  let ?n = "hex_interp ds"
  have tk: "tokenize U ([48, x] @ ds)
      = Inr [mkToken HEX ds 1 1, mkToken EOF [] 1 (3 + length ds)]"
    using assms by (rule tokenize_hex_literal)
  have pv: "bind (tokenize U ([48, x] @ ds)) (\<lambda>tokens. bind (parse_program U tokens) eval_program)
      = Inr (VInt (int ?n))"
    using assms by (rule evaluate_hex_literal)
  have tr: "translate U ([48, x] @ ds)
      = (if ?n < 10 ^ int_max_str_digits
         then Inr (lit ''value = '' @ dec_digits ?n @ [10]) else Inl ValueError)"
    using assms by (rule translate_hex_literal)
  have ok: "?n < 10 ^ int_max_str_digits \<longrightarrow>
      (\<exists>s. translate U ([48, x] @ ds) = Inr (lit ''value = '' @ s @ [10])
         \<and> emit_value (VInt (int ?n)) = Inr s
         \<and> decimal_numeral s \<and> dec_interp s = ?n
         \<and> (\<forall>t. decimal_numeral t \<and> dec_interp t = ?n \<longrightarrow> t = s))"
  proof
    assume small: "?n < 10 ^ int_max_str_digits"
    have "translate U ([48, x] @ ds) = Inr (lit ''value = '' @ dec_digits ?n @ [10])"
      using tr small by (simp only: if_True)
    moreover have "emit_value (VInt (int ?n)) = Inr (dec_digits ?n)"
      using small by (simp only: emit_value.simps str_of_int_nat if_True)
    moreover have "\<forall>t. decimal_numeral t \<and> dec_interp t = ?n \<longrightarrow> t = dec_digits ?n"
    proof (intro allI impI)
      fix t
      assume "decimal_numeral t \<and> dec_interp t = ?n"
      then show "t = dec_digits ?n"
        using decimal_numeral_digits [of t] by simp
    qed
    ultimately show "\<exists>s. translate U ([48, x] @ ds) = Inr (lit ''value = '' @ s @ [10])
         \<and> emit_value (VInt (int ?n)) = Inr s
         \<and> decimal_numeral s \<and> dec_interp s = ?n
         \<and> (\<forall>t. decimal_numeral t \<and> dec_interp t = ?n \<longrightarrow> t = s)"
      using dec_digits_numeral [of ?n] dec_digits_interp [of ?n] by blast
  qed
  have big: "10 ^ int_max_str_digits \<le> ?n \<longrightarrow>
      translate U ([48, x] @ ds) = Inl ValueError
      \<and> emit_value (VInt (int ?n)) = Inl ValueError"
  proof
    assume "10 ^ int_max_str_digits \<le> ?n"
    then have b: "\<not> ?n < 10 ^ int_max_str_digits" by (simp only: not_less)
    have "translate U ([48, x] @ ds) = Inl ValueError"
      using tr b by (simp only: if_False)
    moreover have "emit_value (VInt (int ?n)) = Inl ValueError"
      using b by (simp only: emit_value.simps str_of_int_nat if_False)
    ultimately show "translate U ([48, x] @ ds) = Inl ValueError
        \<and> emit_value (VInt (int ?n)) = Inl ValueError" ..
  qed
  have short: "length ds \<le> 3500 \<longrightarrow> ?n < 10 ^ int_max_str_digits"
    using short_literal_fits [OF assms(3)] by simp
  have lexer: "\<forall>lx pre rest.
      lx_text (skip_ws U lx) = pre @ [48, x] @ ds @ rest \<and> lx_i (skip_ws U lx) = length pre
      \<and> (rest = [] \<or> \<not> hex_accept U (hd rest)) \<longrightarrow>
      (\<exists>lx1. next_token U lx
         = Inr (mkToken HEX ds (lx_line (skip_ws U lx)) (lx_col (skip_ws U lx)), lx1))"
  proof (intro allI impI)
    fix lx pre rest
    assume a: "lx_text (skip_ws U lx) = pre @ [48, x] @ ds @ rest
        \<and> lx_i (skip_ws U lx) = length pre \<and> (rest = [] \<or> \<not> hex_accept U (hd rest))"
    have "next_token U lx = Inr (mkToken HEX ds (lx_line (skip_ws U lx)) (lx_col (skip_ws U lx)),
        (skip_ws U lx)\<lparr>lx_i := length pre + 2 + length ds,
          lx_col := lx_col (skip_ws U lx) + 2 + length ds\<rparr>)"
      using a assms by (intro next_token_hex [where rest = rest]) simp_all
    then show "\<exists>lx1. next_token U lx
        = Inr (mkToken HEX ds (lx_line (skip_ws U lx)) (lx_col (skip_ws U lx)), lx1)"
      by blast
  qed
  have parser: "\<forall>n tokens i. i < length tokens \<and> tok_kind (tokens ! i) = HEX
      \<and> tok_value (tokens ! i) = ds \<longrightarrow>
      parse_value U (Suc n) tokens i = Inr (NumberNode (int ?n), i + 1)"
    using assms(2,3) parse_value_hex by blast
  have ev: "eval_value cs (NumberNode (int ?n)) = Inr (VInt (int ?n))"
    by simp
  have em: "emit_value (VInt (int ?n)) = str_of_int (int ?n)"
    by simp
  have lim: "int_max_str_digits = 4300"
    by (simp add: int_max_str_digits_def)
  show ?thesis
    by (intro conjI) (rule tk, rule pv, rule ok, rule big, rule short, rule lexer,
        rule parser, rule ev, rule em, rule lim)
qed

theorem C3_hex_literal_witness:
  "translate empty_db (lit ''0xfF'') = Inr (lit ''value = 255'' @ [10])
   \<and> translate empty_db (lit ''0X10000000000000000'')
     = Inr (lit ''value = 18446744073709551616'' @ [10])"
proof -
  have run: "translate empty_db ([48, x] @ ds) = Inr (lit ''value = '' @ t @ [10])"
    if x: "x = 120 \<or> x = 88" and ds: "ds \<noteq> []" "\<forall>c \<in> set ds. is_hex_digit c"
      and len: "length ds \<le> 3500" and t: "decimal_numeral t" "dec_interp t = hex_interp ds"
    for x ds t
  proof -
    note c3 = C3_hex_literal [OF x ds, of empty_db "[]"]
    from c3 len have "hex_interp ds < 10 ^ int_max_str_digits" by blast
    with c3 obtain s where s: "translate empty_db ([48, x] @ ds) = Inr (lit ''value = '' @ s @ [10])"
      and u: "\<forall>t. decimal_numeral t \<and> dec_interp t = hex_interp ds \<longrightarrow> t = s"
      by blast
    from u t have "t = s" by blast
    with s show ?thesis by simp
  qed
  have h1: "hex_interp (lit ''fF'') = 255"
    by (simp add: hex_interp_def positional_Cons hexval_def lit_def)
  have h2: "hex_interp (lit ''10000000000000000'') = 18446744073709551616"
    by (simp add: hex_interp_def positional_Cons hexval_def lit_def)
  have d1: "dec_interp (lit ''255'') = 255"
    by (simp add: dec_interp_def positional_Cons lit_def)
  have d2: "dec_interp (lit ''18446744073709551616'') = 18446744073709551616"
    by (simp add: dec_interp_def positional_Cons lit_def)
  have "translate empty_db ([48, 120] @ lit ''fF'') = Inr (lit ''value = '' @ lit ''255'' @ [10])"
    by (rule run) (simp_all add: h1 d1, simp_all add: lit_def is_hex_digit_def decimal_numeral_def)
  moreover have "translate empty_db ([48, 88] @ lit ''10000000000000000'')
      = Inr (lit ''value = '' @ lit ''18446744073709551616'' @ [10])"
    by (rule run) (simp_all add: h2 d2, simp_all add: lit_def is_hex_digit_def decimal_numeral_def)
  ultimately show ?thesis
    by (simp add: lit_def)
qed

text \<open>
  The claim promises the decimal string for digits of any length. The literal \<open>0x1\<close>
  followed by 3600 zeros is a valid hexadecimal literal; its value \<open>16 ^ 3600\<close> has
  4335 decimal digits, \<open>str\<close> raises \<open>ValueError\<close>, no text is emitted and \<open>run_cli\<close>
  returns the status 3.
\<close>

theorem C3_long_literal_counterexample:
  "list_all is_hex_digit (lit ''1'' @ replicate 3600 48)
   \<and> translate empty_db (lit ''0x1'' @ replicate 3600 48) = Inl ValueError
   \<and> exit_code (translate empty_db (lit ''0x1'' @ replicate 3600 48)) = 3"
proof -
  have 1: "list_all is_hex_digit (lit ''1'' @ replicate 3600 48)"
    by (auto simp: list_all_iff is_hex_digit_def lit_def)
  have "lit ''0x1'' @ replicate 3600 48 = [48, 120] @ 49 # replicate 3600 48"
    by (simp add: lit_def)
  moreover have "translate empty_db ([48, 120] @ 49 # replicate 3600 48) = Inl ValueError"
    by (rule translate_long_literal) simp
  ultimately have 2: "translate empty_db (lit ''0x1'' @ replicate 3600 48) = Inl ValueError"
    by (simp only:)
  have 3: "exit_code (translate empty_db (lit ''0x1'' @ replicate 3600 48)) = 3"
    by (simp only: 2 exit_code.simps)
  from 1 2 3 show ?thesis by blast
qed

section \<open>The parser\<close>

text \<open>
  The step budget of \<open>parse_program\<close> is never used up: on every token list the
  result is a program or an exception of the source.
\<close>

lemma Parser_peek_Inr: "Parser_peek tokens i = Inr t \<longleftrightarrow> i < length tokens \<and> t = tokens ! i"
  by (auto simp: Parser_peek_def)

lemma Parser_peek_Inl: "Parser_peek tokens i = Inl e \<longleftrightarrow> \<not> i < length tokens \<and> e = IndexError"
  by (auto simp: Parser_peek_def)

lemma Parser_advance_Inr:
  "Parser_advance tokens i = Inr (t, j) \<longleftrightarrow> i < length tokens \<and> t = tokens ! i \<and> j = i + 1"
  by (auto simp: Parser_advance_def)

lemma Parser_advance_Inl:
  "Parser_advance tokens i = Inl e \<longleftrightarrow> \<not> i < length tokens \<and> e = IndexError"
  by (auto simp: Parser_advance_def)

lemma expect_Inr:
  "expect tokens i k = Inr (t, j) \<longleftrightarrow>
     i < length tokens \<and> t = tokens ! i \<and> tok_kind t = k \<and> j = i + 1"
  by (auto simp: expect_def bind_Inr_iff Parser_peek_Inr Parser_advance_Inr)

lemma expect_Inl:
  "expect tokens i k = Inl e \<longleftrightarrow>
     (\<not> i < length tokens \<and> e = IndexError)
     \<or> (i < length tokens \<and> tok_kind (tokens ! i) \<noteq> k
        \<and> e = ParseError (Expected k (tok_line (tokens ! i)) (tok_col (tokens ! i))
              (tok_kind (tokens ! i))))"
  by (auto simp: expect_def bind_Inl_iff Parser_peek_Inr Parser_peek_Inl Parser_advance_Inl)

lemma int16_not_fuel: "int16 U s \<noteq> Inl OutOfFuel"
proof -
  have "int16_from U acc s \<noteq> Inl OutOfFuel" for acc
    by (induction s arbitrary: acc) (auto split: option.splits)
  then show ?thesis by (simp add: int16_def)
qed

lemma stays_return: "i \<le> length tokens \<Longrightarrow> stays tokens i (Inr (v, i))"
  by (simp add: stays_def)

lemma stays_error: "e \<noteq> OutOfFuel \<Longrightarrow> stays tokens i (Inl e)"
  by (simp add: stays_def)

lemma stays_mono: "stays tokens j r \<Longrightarrow> i \<le> j \<Longrightarrow> stays tokens i r"
  by (auto simp: stays_def)

lemma stays_peek:
  assumes "i < length tokens \<Longrightarrow> stays tokens i (f (tokens ! i))"
  shows "stays tokens i (bind (Parser_peek tokens i) f)"
  using assms by (cases "i < length tokens") (simp_all add: bind_def Parser_peek_def stays_def)

lemma stays_expect:
  assumes "i < length tokens \<Longrightarrow> stays tokens (Suc i) (f (tokens ! i, Suc i))"
  shows "stays tokens i (bind (expect tokens i k) f)"
proof (cases "expect tokens i k")
  case (Inl e)
  then have "e \<noteq> OutOfFuel" by (auto simp: expect_Inl)
  with Inl show ?thesis
    by (simp add: bind_def stays_def)
next
  case (Inr x)
  obtain t j where x: "x = (t, j)" by (cases x)
  with Inr have "i < length tokens" "t = tokens ! i" "j = Suc i"
    by (simp_all add: expect_Inr)
  with assms Inr x show ?thesis
    by (simp add: bind_def stays_mono [of tokens "Suc i" _ i])
qed

lemma stays_advance:
  assumes "i < length tokens \<Longrightarrow> stays tokens (Suc i) (f (tokens ! i, Suc i))"
  shows "stays tokens i (bind (Parser_advance tokens i) f)"
proof (cases "i < length tokens")
  case True
  with assms show ?thesis
    by (simp add: bind_def Parser_advance_def stays_mono [of tokens "Suc i" _ i])
next
  case False
  then show ?thesis
    by (simp add: bind_def Parser_advance_def stays_def)
qed

lemma stays_bind:
  assumes "stays tokens i m"
    and "\<And>v j. m = Inr (v, j) \<Longrightarrow> i \<le> j \<Longrightarrow> j \<le> length tokens \<Longrightarrow> stays tokens j (f (v, j))"
  shows "stays tokens i (bind m f)"
proof (cases m)
  case (Inl e)
  then show ?thesis using assms(1) by (simp add: bind_def stays_def)
next
  case (Inr x)
  obtain v j where x: "x = (v, j)" by (cases x)
  with Inr assms(1) have j: "i \<le> j" "j \<le> length tokens" by (simp_all add: stays_def)
  from assms(2) [OF _ j] Inr x have "stays tokens j (bind m f)" by (simp add: bind_def)
  then show ?thesis using j(1) by (rule stays_mono)
qed

lemma stays_int16:
  assumes "\<And>v. stays tokens i (f v)"
  shows "stays tokens i (bind (int16 U s) f)"
  using assms int16_not_fuel [of U s]
  by (cases "int16 U s") (simp_all add: bind_def stays_def)

lemma parse_const_ref_stays: "stays tokens i (parse_const_ref tokens i)"
  unfolding parse_const_ref_def
  by (rule stays_expect, simp, rule stays_expect, simp, rule stays_expect, simp,
      rule stays_expect, simp add: stays_def)

lemma parse_fuel:
  "(\<forall>i. i \<le> length tokens \<longrightarrow> length tokens + 2 \<le> n + i \<longrightarrow>
        stays tokens i (parse_value U n tokens i))
   \<and> (\<forall>i. i < length tokens \<longrightarrow> length tokens + 1 \<le> n + i \<longrightarrow>
        stays tokens i (parse_array U n tokens i))
   \<and> (\<forall>i items. i \<le> length tokens \<longrightarrow> length tokens + 2 \<le> n + i \<longrightarrow>
        stays tokens i (parse_array_loop U n tokens i items))
   \<and> (\<forall>i. i < length tokens \<longrightarrow> length tokens + 1 \<le> n + i \<longrightarrow>
        stays tokens i (parse_dict U n tokens i))
   \<and> (\<forall>i items. i \<le> length tokens \<longrightarrow> length tokens + 1 \<le> n + i \<longrightarrow>
        stays tokens i (parse_dict_loop U n tokens i items))"
proof (induction n)
  case 0
  then show ?case by simp
next
  case (Suc n)
  let ?L = "length tokens"
  from Suc have
    v: "\<And>i. i \<le> ?L \<Longrightarrow> ?L + 2 \<le> n + i \<Longrightarrow> stays tokens i (parse_value U n tokens i)"
    and a: "\<And>i. i < ?L \<Longrightarrow> ?L + 1 \<le> n + i \<Longrightarrow> stays tokens i (parse_array U n tokens i)"
    and al: "\<And>i items. i \<le> ?L \<Longrightarrow> ?L + 2 \<le> n + i \<Longrightarrow>
        stays tokens i (parse_array_loop U n tokens i items)"
    and d: "\<And>i. i < ?L \<Longrightarrow> ?L + 1 \<le> n + i \<Longrightarrow> stays tokens i (parse_dict U n tokens i)"
    and dl: "\<And>i items. i \<le> ?L \<Longrightarrow> ?L + 1 \<le> n + i \<Longrightarrow>
        stays tokens i (parse_dict_loop U n tokens i items)"
    by blast+
  have 1: "stays tokens i (parse_value U (Suc n) tokens i)"
    if "i \<le> ?L" "?L + 2 \<le> Suc n + i" for i
    unfolding parse_value.simps
  proof (rule stays_peek)
    assume i: "i < ?L"
    let ?t = "tokens ! i"
    consider "tok_kind ?t = HEX" | "tok_kind ?t = KW_ARRAY" | "tok_kind ?t = LBRACE"
      | "tok_kind ?t = QMARK"
      | "tok_kind ?t \<noteq> HEX" "tok_kind ?t \<noteq> KW_ARRAY" "tok_kind ?t \<noteq> LBRACE" "tok_kind ?t \<noteq> QMARK"
      by blast
    then show "stays tokens i
       (if tok_kind ?t = HEX
        then bind (Parser_advance tokens i)
              (\<lambda>(tok, i1). bind (int16 U (tok_value tok)) (\<lambda>v. Inr (NumberNode v, i1)))
        else if tok_kind ?t = KW_ARRAY then parse_array U n tokens i
             else if tok_kind ?t = LBRACE then parse_dict U n tokens i
                  else if tok_kind ?t = QMARK then parse_const_ref tokens i
                       else Inl (ParseError (ValueExpected (tok_line ?t) (tok_col ?t) (tok_kind ?t))))"
    proof cases
      case 1
      have "stays tokens i (bind (Parser_advance tokens i)
              (\<lambda>(tok, i1). bind (int16 U (tok_value tok)) (\<lambda>v. Inr (NumberNode v, i1))))"
        by (rule stays_advance, simp, rule stays_int16, rule stays_return) (use i in simp)
      with 1 show ?thesis by simp
    next
      case 2
      with a [of i] i that show ?thesis by simp
    next
      case 3
      with d [of i] i that show ?thesis by simp
    next
      case 4
      with parse_const_ref_stays [of tokens i] show ?thesis by simp
    next
      case 5
      then show ?thesis by (simp add: stays_error)
    qed
  qed
  have 2: "stays tokens i (parse_array U (Suc n) tokens i)"
    if "i < ?L" "?L + 1 \<le> Suc n + i" for i
    unfolding parse_array.simps
  proof (rule stays_expect, simp, rule stays_expect, simp, rule stays_peek, rule stays_bind)
    assume i2: "Suc (Suc i) < ?L"
    let ?t = "tokens ! Suc (Suc i)"
    show "stays tokens (Suc (Suc i))
       (if tok_kind ?t \<noteq> RPAREN
        then bind (parse_value U n tokens (Suc (Suc i)))
              (\<lambda>(v, i3). parse_array_loop U n tokens i3 [v])
        else Inr ([], Suc (Suc i)))"
    proof (cases "tok_kind ?t \<noteq> RPAREN")
      case True
      have "stays tokens (Suc (Suc i)) (bind (parse_value U n tokens (Suc (Suc i)))
              (\<lambda>(v, i3). parse_array_loop U n tokens i3 [v]))"
      proof (rule stays_bind)
        show "stays tokens (Suc (Suc i)) (parse_value U n tokens (Suc (Suc i)))"
          using i2 that by (intro v) simp_all
      next
        fix x j assume "Suc (Suc i) \<le> j" "j \<le> ?L"
        then show "stays tokens j (case (x, j) of (v, i3) \<Rightarrow> parse_array_loop U n tokens i3 [v])"
          using that al [of j "[x]"] by simp
      qed
      with True show ?thesis by simp
    next
      case False
      then show ?thesis using i2 by (simp add: stays_return)
    qed
  next
    fix items j
    assume "j \<le> ?L"
    show "stays tokens j (case (items, j) of
        (items, i4) \<Rightarrow> bind (expect tokens i4 RPAREN) (\<lambda>(uu, i5). Inr (ArrayNode items, i5)))"
      by (simp, rule stays_expect, simp add: stays_return)
  qed
  have 3: "stays tokens i (parse_array_loop U (Suc n) tokens i items)"
    if "i \<le> ?L" "?L + 2 \<le> Suc n + i" for i items
    unfolding parse_array_loop.simps
  proof (rule stays_peek)
    assume i: "i < ?L"
    show "stays tokens i
       (if tok_kind (tokens ! i) = COMMA
        then bind (Parser_advance tokens i)
              (\<lambda>(uu, i1). bind (parse_value U n tokens i1)
                  (\<lambda>(v, i2). parse_array_loop U n tokens i2 (items @ [v])))
        else Inr (items, i))"
    proof (cases "tok_kind (tokens ! i) = COMMA")
      case True
      have "stays tokens i (bind (Parser_advance tokens i)
              (\<lambda>(uu, i1). bind (parse_value U n tokens i1)
                  (\<lambda>(v, i2). parse_array_loop U n tokens i2 (items @ [v]))))"
      proof (rule stays_advance, simp, rule stays_bind)
        show "stays tokens (Suc i) (parse_value U n tokens (Suc i))"
          using i that by (intro v) simp_all
      next
        fix x j assume "Suc i \<le> j" "j \<le> ?L"
        then show "stays tokens j
            (case (x, j) of (v, i2) \<Rightarrow> parse_array_loop U n tokens i2 (items @ [v]))"
          using that al [of j "items @ [x]"] by simp
      qed
      with True show ?thesis by simp
    next
      case False
      then show ?thesis using i by (simp add: stays_return)
    qed
  qed
  have 4: "stays tokens i (parse_dict U (Suc n) tokens i)"
    if "i < ?L" "?L + 1 \<le> Suc n + i" for i
    unfolding parse_dict.simps
  proof (rule stays_expect, simp, rule stays_bind)
    assume "i < ?L"
    then show "stays tokens (Suc i) (parse_dict_loop U n tokens (Suc i) [])"
      using that by (intro dl) simp_all
  next
    fix items j
    assume "j \<le> ?L"
    show "stays tokens j (case (items, j) of
        (items, i2) \<Rightarrow> bind (expect tokens i2 RBRACE) (\<lambda>(uu, i3). Inr (MapNode items, i3)))"
      by (simp, rule stays_expect, simp add: stays_return)
  qed
  have 5: "stays tokens i (parse_dict_loop U (Suc n) tokens i items)"
    if "i \<le> ?L" "?L + 1 \<le> Suc n + i" for i items
    unfolding parse_dict_loop.simps
  proof (rule stays_peek)
    assume i: "i < ?L"
    show "stays tokens i
       (if tok_kind (tokens ! i) \<noteq> RBRACE
        then bind (expect tokens i IDENT)
              (\<lambda>(key_tok, i1). bind (expect tokens i1 EQUAL)
                (\<lambda>(uu, i2). bind (parse_value U n tokens i2)
                  (\<lambda>(val, i3). bind (expect tokens i3 SEMI)
                    (\<lambda>(uu, i4). parse_dict_loop U n tokens i4
                        (items @ [DictItemNode (tok_value key_tok) val])))))
        else Inr (items, i))"
    proof (cases "tok_kind (tokens ! i) \<noteq> RBRACE")
      case True
      have "stays tokens i (bind (expect tokens i IDENT)
              (\<lambda>(key_tok, i1). bind (expect tokens i1 EQUAL)
                (\<lambda>(uu, i2). bind (parse_value U n tokens i2)
                  (\<lambda>(val, i3). bind (expect tokens i3 SEMI)
                    (\<lambda>(uu, i4). parse_dict_loop U n tokens i4
                        (items @ [DictItemNode (tok_value key_tok) val]))))))"
      proof (rule stays_expect, simp, rule stays_expect, simp, rule stays_bind)
        assume "Suc i < ?L"
        then show "stays tokens (Suc (Suc i)) (parse_value U n tokens (Suc (Suc i)))"
          using that by (intro v) simp_all
      next
        fix x j assume j: "Suc (Suc i) \<le> j" "j \<le> ?L"
        show "stays tokens j (case (x, j) of
            (val, i3) \<Rightarrow> bind (expect tokens i3 SEMI)
               (\<lambda>(uu, i4). parse_dict_loop U n tokens i4
                   (items @ [DictItemNode (tok_value (tokens ! i)) val])))"
          using j that
          by (simp, intro stays_expect, simp, intro dl) simp_all
      qed
      with True show ?thesis by simp
    next
      case False
      then show ?thesis using i by (simp add: stays_return)
    qed
  qed
  show ?case
    using 1 2 3 4 5 by blast
qed

lemma parse_const_decl_stays:
  assumes "length tokens \<le> n + i + 1"
  shows "stays tokens i (parse_const_decl U n tokens i)"
  unfolding parse_const_decl_def
proof (rule stays_expect, simp, rule stays_expect, simp, rule stays_expect, simp, rule stays_bind)
  assume "Suc (Suc i) < length tokens"
  then show "stays tokens (Suc (Suc (Suc i))) (parse_value U n tokens (Suc (Suc (Suc i))))"
    using assms parse_fuel [of tokens n U] by simp
next
  fix x j assume "j \<le> length tokens"
  then show "stays tokens j (case (x, j) of
      (val, i4) \<Rightarrow> Inr (ConstDeclNode (tok_value (tokens ! Suc i)) val, i4))"
    by (simp add: stays_return)
qed

lemma parse_consts_loop_stays:
  "i \<le> length tokens \<Longrightarrow> length tokens + 1 \<le> n + i \<Longrightarrow>
   stays tokens i (parse_consts_loop U n tokens i ds)"
proof (induction n arbitrary: i ds)
  case 0
  then show ?case by simp
next
  case (Suc n)
  show ?case
    unfolding parse_consts_loop.simps
  proof (rule stays_peek)
    assume i: "i < length tokens"
    show "stays tokens i
       (if tok_kind (tokens ! i) = KW_VAR
        then bind (parse_const_decl U n tokens i)
              (\<lambda>(d, i1). parse_consts_loop U n tokens i1 (ds @ [d]))
        else Inr (ds, i))"
    proof (cases "tok_kind (tokens ! i) = KW_VAR")
      case True
      have "stays tokens i (bind (parse_const_decl U n tokens i)
              (\<lambda>(d, i1). parse_consts_loop U n tokens i1 (ds @ [d])))"
      proof (rule stays_bind)
        show "stays tokens i (parse_const_decl U n tokens i)"
          using Suc.prems by (intro parse_const_decl_stays) simp
      next
        fix d j assume dj: "parse_const_decl U n tokens i = Inr (d, j)" "j \<le> length tokens"
        then obtain a where pv: "parse_value U n tokens (Suc (Suc (Suc i))) = Inr (a, j)"
          and len: "Suc (Suc (Suc i)) \<le> length tokens"
          by (auto simp: parse_const_decl_def bind_Inr_iff expect_Inr)
        have "stays tokens (Suc (Suc (Suc i))) (parse_value U n tokens (Suc (Suc (Suc i))))"
          using len Suc.prems parse_fuel [of tokens n U] by simp
        with pv have "i + 3 \<le> j"
          by (simp add: stays_def)
        then show "stays tokens j (case (d, j) of
            (d, i1) \<Rightarrow> parse_consts_loop U n tokens i1 (ds @ [d]))"
          using Suc.prems dj(2) by (simp add: Suc.IH)
      qed
      with True show ?thesis by simp
    next
      case False
      then show ?thesis using i by (simp add: stays_return)
    qed
  qed
qed


lemma parse_program_fuel: "parse_program U tokens \<noteq> Inl OutOfFuel"
proof -
  let ?n = "length tokens + 2"
  have c: "stays tokens 0 (parse_consts_loop U ?n tokens 0 [])"
    by (rule parse_consts_loop_stays) simp_all
  show ?thesis
  proof (cases "parse_consts_loop U ?n tokens 0 []")
    case (Inl e)
    with c have "e \<noteq> OutOfFuel" by (simp add: stays_def)
    with Inl show ?thesis
      by (simp add: parse_program_def parse_program_steps_def bind_def)
  next
    case (Inr x)
    obtain ds i where x: "x = (ds, i)" by (cases x)
    with Inr c have i: "i \<le> length tokens" by (simp add: stays_def)
    then have v: "stays tokens i (parse_value U ?n tokens i)"
      using parse_fuel [of tokens ?n U] by simp
    show ?thesis
    proof (cases "parse_value U ?n tokens i")
      case (Inl e)
      with v have "e \<noteq> OutOfFuel" by (simp add: stays_def)
      with Inl Inr x show ?thesis
        by (simp add: parse_program_def parse_program_steps_def bind_def)
    next
      case r: (Inr y)
      obtain root i1 where y: "y = (root, i1)" by (cases y)
      show ?thesis
      proof (cases "expect tokens i1 EOF")
        case (Inl e)
        then have "e \<noteq> OutOfFuel" by (auto simp: expect_Inl)
        with Inl Inr x r y show ?thesis
          by (simp add: parse_program_def parse_program_steps_def bind_def)
      next
        case e: (Inr z)
        with Inr x r y show ?thesis
          by (simp add: parse_program_def parse_program_steps_def bind_def)
      qed
    qed
  qed
qed

text \<open>Every name of a parsed program is the value of an identifier token.\<close>

lemma nodes_names_append [simp]: "nodes_names (xs @ ys) = nodes_names xs @ nodes_names ys"
  by (induction xs) auto

lemma items_names_append [simp]: "items_names (xs @ ys) = items_names xs @ items_names ys"
proof (induction xs)
  case Nil
  then show ?case by simp
next
  case (Cons it xs)
  then show ?case by (cases it) simp
qed

lemma ident_valuesI:
  "i < length tokens \<Longrightarrow> tok_kind (tokens ! i) = IDENT \<Longrightarrow> tok_value (tokens ! i) \<in> ident_values tokens"
  by (auto simp: ident_values_def)

lemma parse_const_ref_names:
  "parse_const_ref tokens i = Inr (v, j) \<Longrightarrow> set (node_names v) \<subseteq> ident_values tokens"
  by (auto simp: parse_const_ref_def bind_Inr_iff expect_Inr intro!: ident_valuesI)

lemma parse_names:
  "(\<forall>i v j. parse_value U n tokens i = Inr (v, j) \<longrightarrow> set (node_names v) \<subseteq> ident_values tokens)
   \<and> (\<forall>i v j. parse_array U n tokens i = Inr (v, j) \<longrightarrow> set (node_names v) \<subseteq> ident_values tokens)
   \<and> (\<forall>i items vs j. parse_array_loop U n tokens i items = Inr (vs, j) \<longrightarrow>
         set (nodes_names items) \<subseteq> ident_values tokens \<longrightarrow>
         set (nodes_names vs) \<subseteq> ident_values tokens)
   \<and> (\<forall>i v j. parse_dict U n tokens i = Inr (v, j) \<longrightarrow> set (node_names v) \<subseteq> ident_values tokens)
   \<and> (\<forall>i items its j. parse_dict_loop U n tokens i items = Inr (its, j) \<longrightarrow>
         set (items_names items) \<subseteq> ident_values tokens \<longrightarrow>
         set (items_names its) \<subseteq> ident_values tokens)"
proof (induction n)
  case 0
  then show ?case by simp
next
  case (Suc n)
  let ?S = "ident_values tokens"
  from Suc have
    ihv: "\<And>i v j. parse_value U n tokens i = Inr (v, j) \<Longrightarrow> set (node_names v) \<subseteq> ?S"
    and iha: "\<And>i v j. parse_array U n tokens i = Inr (v, j) \<Longrightarrow> set (node_names v) \<subseteq> ?S"
    and ihal: "\<And>i items vs j. parse_array_loop U n tokens i items = Inr (vs, j) \<Longrightarrow>
         set (nodes_names items) \<subseteq> ?S \<Longrightarrow> set (nodes_names vs) \<subseteq> ?S"
    and ihd: "\<And>i v j. parse_dict U n tokens i = Inr (v, j) \<Longrightarrow> set (node_names v) \<subseteq> ?S"
    and ihdl: "\<And>i items its j. parse_dict_loop U n tokens i items = Inr (its, j) \<Longrightarrow>
         set (items_names items) \<subseteq> ?S \<Longrightarrow> set (items_names its) \<subseteq> ?S"
    by blast+
  have 1: "set (node_names v) \<subseteq> ?S" if "parse_value U (Suc n) tokens i = Inr (v, j)" for i v j
  proof -
    from that have i: "i < length tokens"
      by (cases "i < length tokens") (simp_all add: bind_def Parser_peek_def)
    then have pk: "Parser_peek tokens i = Inr (tokens ! i)"
      by (simp add: Parser_peek_def)
    let ?t = "tokens ! i"
    consider "tok_kind ?t = HEX" | "tok_kind ?t = KW_ARRAY" | "tok_kind ?t = LBRACE"
      | "tok_kind ?t = QMARK"
      | "tok_kind ?t \<noteq> HEX" "tok_kind ?t \<noteq> KW_ARRAY" "tok_kind ?t \<noteq> LBRACE" "tok_kind ?t \<noteq> QMARK"
      by blast
    then show ?thesis
    proof cases
      case 1
      with that pk i show ?thesis
        by (auto simp: bind_def Parser_advance_def split: sum.splits)
    next
      case 2
      with that pk have "parse_array U n tokens i = Inr (v, j)" by (simp add: bind_def)
      then show ?thesis by (rule iha)
    next
      case 3
      with that pk have "parse_dict U n tokens i = Inr (v, j)" by (simp add: bind_def)
      then show ?thesis by (rule ihd)
    next
      case 4
      with that pk have "parse_const_ref tokens i = Inr (v, j)" by (simp add: bind_def)
      then show ?thesis by (rule parse_const_ref_names)
    next
      case 5
      with that pk show ?thesis by (simp add: bind_def)
    qed
  qed
  have 2: "set (node_names v) \<subseteq> ?S" if "parse_array U (Suc n) tokens i = Inr (v, j)" for i v j
  proof -
    from that obtain t1 i1 where e1: "expect tokens i KW_ARRAY = Inr (t1, i1)"
      by (cases "expect tokens i KW_ARRAY") (auto simp: bind_def)
    from that e1 obtain t2 i2 where e2: "expect tokens i1 LPAREN = Inr (t2, i2)"
      by (cases "expect tokens i1 LPAREN") (auto simp: bind_def)
    from that e1 e2 obtain t where pk: "Parser_peek tokens i2 = Inr t"
      by (cases "Parser_peek tokens i2") (auto simp: bind_def)
    let ?m = "if tok_kind t \<noteq> RPAREN
           then bind (parse_value U n tokens i2) (\<lambda>(v, i3). parse_array_loop U n tokens i3 [v])
           else Inr ([], i2)"
    from that e1 e2 pk obtain items i4 where m: "?m = Inr (items, i4)"
      by (cases ?m) (auto simp: bind_def)
    from that e1 e2 pk m have v: "v = ArrayNode items"
      by (auto simp: bind_def split: sum.splits)
    have "set (nodes_names items) \<subseteq> ?S"
    proof (cases "tok_kind t \<noteq> RPAREN")
      case True
      with m obtain x i3 where x: "parse_value U n tokens i2 = Inr (x, i3)"
        and l: "parse_array_loop U n tokens i3 [x] = Inr (items, i4)"
        by (auto simp: bind_Inr_iff)
      from ihv [OF x] have "set (nodes_names [x]) \<subseteq> ?S" by simp
      with ihal [OF l] show ?thesis by simp
    next
      case False
      with m show ?thesis by simp
    qed
    with v show ?thesis by simp
  qed
  have 3: "set (nodes_names vs) \<subseteq> ?S"
    if "parse_array_loop U (Suc n) tokens i items = Inr (vs, j)" "set (nodes_names items) \<subseteq> ?S"
    for i items vs j
  proof -
    from that(1) have i: "i < length tokens"
      by (cases "i < length tokens") (simp_all add: bind_def Parser_peek_def)
    then have pk: "Parser_peek tokens i = Inr (tokens ! i)"
      and ad: "Parser_advance tokens i = Inr (tokens ! i, i + 1)"
      by (simp_all add: Parser_peek_def Parser_advance_def)
    show ?thesis
    proof (cases "tok_kind (tokens ! i) = COMMA")
      case True
      with that(1) pk ad have "bind (parse_value U n tokens (i + 1))
          (\<lambda>(v, i2). parse_array_loop U n tokens i2 (items @ [v])) = Inr (vs, j)"
        by (simp add: bind_def)
      then obtain x i2 where x: "parse_value U n tokens (i + 1) = Inr (x, i2)"
        and l: "parse_array_loop U n tokens i2 (items @ [x]) = Inr (vs, j)"
        by (auto simp: bind_Inr_iff)
      from ihv [OF x] that(2) have "set (nodes_names (items @ [x])) \<subseteq> ?S" by simp
      with ihal [OF l] show ?thesis by simp
    next
      case False
      with that pk show ?thesis by (simp add: bind_def)
    qed
  qed
  have 4: "set (node_names v) \<subseteq> ?S" if "parse_dict U (Suc n) tokens i = Inr (v, j)" for i v j
  proof -
    from that obtain t1 i1 where e1: "expect tokens i LBRACE = Inr (t1, i1)"
      by (cases "expect tokens i LBRACE") (auto simp: bind_def)
    from that e1 obtain items i2 where l: "parse_dict_loop U n tokens i1 [] = Inr (items, i2)"
      by (cases "parse_dict_loop U n tokens i1 []") (auto simp: bind_def)
    from that e1 l have v: "v = MapNode items"
      by (auto simp: bind_def split: sum.splits)
    from ihdl [OF l] v show ?thesis by simp
  qed
  have 5: "set (items_names its) \<subseteq> ?S"
    if "parse_dict_loop U (Suc n) tokens i items = Inr (its, j)" "set (items_names items) \<subseteq> ?S"
    for i items its j
  proof -
    from that(1) have i: "i < length tokens"
      by (cases "i < length tokens") (simp_all add: bind_def Parser_peek_def)
    then have pk: "Parser_peek tokens i = Inr (tokens ! i)"
      by (simp add: Parser_peek_def)
    show ?thesis
    proof (cases "tok_kind (tokens ! i) \<noteq> RBRACE")
      case True
      let ?k = "tok_value (tokens ! i)"
      from that(1) pk True obtain t1 i1 where e1: "expect tokens i IDENT = Inr (t1, i1)"
        by (cases "expect tokens i IDENT") (auto simp: bind_def)
      then have id: "tok_kind (tokens ! i) = IDENT" and t1: "t1 = tokens ! i"
        by (auto simp: expect_Inr)
      from that(1) pk True e1 obtain t2 i2 where e2: "expect tokens i1 EQUAL = Inr (t2, i2)"
        by (cases "expect tokens i1 EQUAL") (auto simp: bind_def)
      from that(1) pk True e1 e2 obtain x i3 where x: "parse_value U n tokens i2 = Inr (x, i3)"
        by (cases "parse_value U n tokens i2") (auto simp: bind_def)
      from that(1) pk True e1 e2 x obtain t3 i4 where e3: "expect tokens i3 SEMI = Inr (t3, i4)"
        by (cases "expect tokens i3 SEMI") (auto simp: bind_def)
      from that(1) pk True e1 e2 x e3 t1
      have l: "parse_dict_loop U n tokens i4 (items @ [DictItemNode ?k x]) = Inr (its, j)"
        by (simp add: bind_def)
      from ihv [OF x] that(2) ident_valuesI [OF i id]
      have "set (items_names (items @ [DictItemNode ?k x])) \<subseteq> ?S"
        by simp
      with ihdl [OF l] show ?thesis by simp
    next
      case False
      with that pk show ?thesis by (simp add: bind_def)
    qed
  qed
  show ?case
    using 1 2 3 4 5 by blast
qed

lemma parse_const_decl_names:
  assumes "parse_const_decl U n tokens i = Inr (d, j)"
  shows "decl_name d \<in> ident_values tokens \<and> set (node_names (decl_value d)) \<subseteq> ident_values tokens"
proof -
  from assms obtain a where a: "parse_value U n tokens (Suc (Suc (Suc i))) = Inr (a, j)"
    and d: "d = ConstDeclNode (tok_value (tokens ! Suc i)) a"
    and id: "Suc i < length tokens" "tok_kind (tokens ! Suc i) = IDENT"
    by (auto simp: parse_const_decl_def bind_Inr_iff expect_Inr)
  from parse_names [of U n tokens] a have "set (node_names a) \<subseteq> ident_values tokens"
    by blast
  with d ident_valuesI [OF id] show ?thesis by simp
qed

lemma parse_consts_loop_names:
  "parse_consts_loop U n tokens i acc = Inr (ds, j) \<Longrightarrow>
   \<forall>d \<in> set acc. decl_name d \<in> ident_values tokens
      \<and> set (node_names (decl_value d)) \<subseteq> ident_values tokens \<Longrightarrow>
   \<forall>d \<in> set ds. decl_name d \<in> ident_values tokens
      \<and> set (node_names (decl_value d)) \<subseteq> ident_values tokens"
proof (induction n arbitrary: i acc)
  case 0
  then show ?case by simp
next
  case (Suc n)
  from Suc.prems(1) have i: "i < length tokens"
    by (cases "i < length tokens") (simp_all add: bind_def Parser_peek_def)
  then have pk: "Parser_peek tokens i = Inr (tokens ! i)"
    by (simp add: Parser_peek_def)
  show ?case
  proof (cases "tok_kind (tokens ! i) = KW_VAR")
    case True
    with Suc.prems(1) pk obtain d i1 where d: "parse_const_decl U n tokens i = Inr (d, i1)"
      and l: "parse_consts_loop U n tokens i1 (acc @ [d]) = Inr (ds, j)"
      by (auto simp: bind_Inr_iff)
    from parse_const_decl_names [OF d] Suc.prems(2)
    have "\<forall>x \<in> set (acc @ [d]). decl_name x \<in> ident_values tokens
        \<and> set (node_names (decl_value x)) \<subseteq> ident_values tokens"
      by simp
    with Suc.IH [OF l] show ?thesis by blast
  next
    case False
    with Suc.prems pk show ?thesis by (simp add: bind_def)
  qed
qed

lemma parse_program_names:
  assumes "parse_program U tokens = Inr prog"
  shows "set (program_names prog) \<subseteq> ident_values tokens"
proof -
  let ?n = "length tokens + 2"
  from assms have run: "bind (parse_consts_loop U ?n tokens 0 []) (\<lambda>(ds, i).
      bind (parse_value U ?n tokens i) (\<lambda>(root, i1).
      bind (expect tokens i1 EOF) (\<lambda>_. Inr (ProgramNode ds root)))) = Inr prog"
    by (simp add: parse_program_def parse_program_steps_def)
  then obtain ds i where ds: "parse_consts_loop U ?n tokens 0 [] = Inr (ds, i)"
    and r1: "bind (parse_value U ?n tokens i) (\<lambda>(root, i1).
      bind (expect tokens i1 EOF) (\<lambda>_. Inr (ProgramNode ds root))) = Inr prog"
    by (cases "parse_consts_loop U ?n tokens 0 []") (auto simp: bind_def)
  from r1 obtain root i1 where root: "parse_value U ?n tokens i = Inr (root, i1)"
    and r2: "bind (expect tokens i1 EOF) (\<lambda>_. Inr (ProgramNode ds root)) = Inr prog"
    by (cases "parse_value U ?n tokens i") (auto simp: bind_def)
  from r2 have prog: "prog = ProgramNode ds root"
    by (cases "expect tokens i1 EOF") (auto simp: bind_def)
  from parse_consts_loop_names [OF ds]
  have "\<forall>d \<in> set ds. decl_name d \<in> ident_values tokens
      \<and> set (node_names (decl_value d)) \<subseteq> ident_values tokens"
    by simp
  moreover from parse_names [of U ?n tokens] root
  have "set (node_names root) \<subseteq> ident_values tokens"
    by blast
  ultimately show ?thesis
    using prog by auto
qed

section \<open>Reserved words\<close>

lemma hex_loop_chars:
  "hex_loop U lx acc = (ds, lx1) \<Longrightarrow> c \<in> set ds \<Longrightarrow> c \<in> set acc \<or> hex_accept U c"
proof (induction U lx acc rule: hex_loop.induct)
  case (1 U lx digits)
  let ?c = "peek lx 1 \<noteq> [] \<and> (str_isdigit U (peek lx 1) \<or> str_in (str_lower U (peek lx 1)) (lit ''abcdef''))"
  show ?case
  proof (cases ?c)
    case True
    then have loop: "hex_loop U (advance lx 1) (digits @ peek lx 1) = (ds, lx1)"
      using "1.prems"(1) by (subst (asm) hex_loop.simps) (simp add: Let_def)
    from True obtain d where d: "peek lx 1 = [d]"
      by (auto simp: peek_def Let_def split: if_splits)
    with True have "hex_accept U d"
      by (simp add: hex_accept_def str_isdigit_def str_lower_def)
    with "1.IH" [OF _ _ loop "1.prems"(2)] True d show ?thesis
      by auto
  next
    case False
    then show ?thesis
      using "1.prems" by (subst (asm) hex_loop.simps) (auto simp: Let_def)
  qed
qed

lemma ident_loop_chars:
  "ident_loop U lx acc = (w, lx1) \<Longrightarrow> c \<in> set w \<Longrightarrow> c \<in> set acc \<or> isalnum U c"
proof (induction U lx acc rule: ident_loop.induct)
  case (1 U lx s)
  show ?case
  proof (cases "peek lx 1 \<noteq> [] \<and> str_isalnum U (peek lx 1)")
    case True
    then have loop: "ident_loop U (advance lx 1) (s @ peek lx 1) = (w, lx1)"
      using "1.prems"(1) by (subst (asm) ident_loop.simps) (simp add: Let_def)
    from True obtain d where d: "peek lx 1 = [d]"
      by (auto simp: peek_def Let_def split: if_splits)
    with True have "isalnum U d"
      by (simp add: str_isalnum_def)
    with "1.IH" [OF _ _ loop "1.prems"(2)] True d show ?thesis
      by auto
  next
    case False
    then show ?thesis
      using "1.prems" by (subst (asm) ident_loop.simps) (auto simp: Let_def)
  qed
qed

lemma r_not_hex: "\<not> hex_accept U 114"
  by (simp add: hex_accept_latin1)

lemma next_token_keywords:
  assumes "next_token U lx = Inr (tok, lx1)"
  shows "(tok_value tok = lit ''array'' \<longrightarrow> tok_kind tok = KW_ARRAY)
     \<and> (tok_value tok = lit ''var'' \<longrightarrow> tok_kind tok = KW_VAR)
     \<and> (tok_kind tok = IDENT \<longrightarrow> list_all (isalnum U) (tok_value tok))"
proof -
  let ?l = "skip_ws U lx"
  show ?thesis
  proof (cases "peek ?l 1 = []")
    case True
    then have "tok = mkToken EOF [] (lx_line ?l) (lx_col ?l)"
      using assms by (auto simp: next_token_def Let_def)
    then show ?thesis by (simp add: mkToken_def lit_def)
  next
    case ne: False
    show ?thesis
    proof (cases "single (peek ?l 1)")
      case (Some k)
      then have tok: "tok = mkToken k (peek ?l 1) (lx_line ?l) (lx_col ?l)"
        using assms ne by (simp add: next_token_def Let_def)
      have "length (peek ?l 1) \<le> 1" by (simp add: peek_def Let_def)
      moreover have "k \<noteq> IDENT"
        using Some by (auto simp: single_def split: if_splits)
      ultimately show ?thesis
        using tok by (auto simp: mkToken_def lit_def)
    next
      case None
      show ?thesis
      proof (cases "peek ?l 1 = lit ''0'' \<and> str_lower U (peek ?l 2) = lit ''x''")
        case True
        then have h: "lex_hex U ?l = Inr (tok, lx1)"
          using assms ne None by (simp add: next_token_def Let_def)
        obtain w l where loop: "hex_loop U (advance ?l 2) [] = (w, l)"
          by (cases "hex_loop U (advance ?l 2) []")
        with h have tok: "tok = mkToken HEX w (lx_line ?l) (lx_col ?l)"
          by (auto simp: lex_hex_def Let_def split: if_splits)
        have "114 \<notin> set w"
          using hex_loop_chars [OF loop, of 114] r_not_hex [of U] by auto
        then have "w \<noteq> lit ''array''" "w \<noteq> lit ''var''"
          by (auto simp: lit_def)
        then show ?thesis
          using tok by (simp add: mkToken_def)
      next
        case False
        then have h: "lex_ident_or_kw U ?l = Inr (tok, lx1)"
          using assms ne None by (auto simp: next_token_def Let_def split: if_splits)
        obtain w l where loop: "ident_loop U ?l [] = (w, l)"
          by (cases "ident_loop U ?l []")
        have "list_all (isalnum U) w"
          using ident_loop_chars [OF loop] by (auto simp: list_all_iff)
        moreover have "lit ''array'' \<noteq> lit ''var''"
          by (simp add: lit_def)
        ultimately show ?thesis
          using h loop
          by (auto simp: lex_ident_or_kw_def Let_def mkToken_def split: if_splits)
      qed
    qed
  qed
qed

lemma tokenize_loop_tokens:
  "tokenize_loop U lx acc = Inr toks \<Longrightarrow> t \<in> set toks \<Longrightarrow>
   t \<in> set acc \<or> (\<exists>l l1. next_token U l = Inr (t, l1))"
proof (induction U lx acc rule: tokenize_loop.induct)
  case (1 U lx tokens)
  show ?case
  proof (cases "next_token U lx")
    case (Inl e)
    then show ?thesis
      using "1.prems" by (subst (asm) tokenize_loop.simps) simp
  next
    case (Inr x)
    obtain tok lx1 where x: "x = (tok, lx1)" by (cases x)
    show ?thesis
    proof (cases "tok_kind tok = EOF")
      case True
      then have "toks = tokens @ [tok]"
        using "1.prems"(1) Inr x by (subst (asm) tokenize_loop.simps) simp
      then show ?thesis
        using "1.prems"(2) Inr x by auto
    next
      case False
      then have "tokenize_loop U lx1 (tokens @ [tok]) = Inr toks"
        using "1.prems"(1) Inr x by (subst (asm) tokenize_loop.simps) simp
      from "1.IH" [OF Inr x [symmetric] False this "1.prems"(2)] show ?thesis
        using Inr x by auto
    qed
  qed
qed

lemma tokenize_keywords:
  assumes "tokenize U src = Inr toks" and "t \<in> set toks"
  shows "(tok_value t = lit ''array'' \<longrightarrow> tok_kind t = KW_ARRAY)
     \<and> (tok_value t = lit ''var'' \<longrightarrow> tok_kind t = KW_VAR)
     \<and> (tok_kind t = IDENT \<longrightarrow> list_all (isalnum U) (tok_value t))"
proof -
  from tokenize_loop_tokens [OF assms(1) [unfolded tokenize_def] assms(2)]
  obtain l l1 where "next_token U l = Inr (t, l1)" by auto
  then show ?thesis by (rule next_token_keywords)
qed

lemma expect_other:
  "i < length tokens \<Longrightarrow> tok_kind (tokens ! i) \<noteq> k \<Longrightarrow>
   expect tokens i k = Inl (ParseError (Expected k (tok_line (tokens ! i)) (tok_col (tokens ! i))
     (tok_kind (tokens ! i))))"
  by (simp add: expect_def bind_def Parser_peek_def)

lemma expect_same:
  "i < length tokens \<Longrightarrow> tok_kind (tokens ! i) = k \<Longrightarrow>
   expect tokens i k = Inr (tokens ! i, Suc i)"
  by (simp add: expect_def bind_def Parser_peek_def Parser_advance_def)

text \<open>
  Claim C10. In the tokens of any text, a token whose value is \<open>array\<close> or \<open>var\<close> is
  the keyword token, never an identifier; so no program that is lexed and parsed has
  either word as the name of a constant, as a map key or as the name of a constant
  reference. The parser asks for an identifier token in the three places: after \<open>var\<close>
  in a declaration, at the start of a map entry (any token but the closing brace), and
  after \<open>?[\<close> in a reference; any other token there, a keyword in particular, is the
  parse error that reports the identifier expected and the token found.
\<close>

theorem C10_reserved_words:
  "(tokenize U src = Inr toks \<longrightarrow>
      (\<forall>t \<in> set toks. (tok_value t = lit ''array'' \<longrightarrow> tok_kind t = KW_ARRAY)
                     \<and> (tok_value t = lit ''var'' \<longrightarrow> tok_kind t = KW_VAR))
      \<and> (\<forall>prog. parse_program U toks = Inr prog \<longrightarrow>
            lit ''array'' \<notin> set (program_names prog)
            \<and> lit ''var'' \<notin> set (program_names prog)))
   \<and> (Suc i < length tokens \<and> tok_kind (tokens ! i) = KW_VAR
        \<and> tok_kind (tokens ! Suc i) \<noteq> IDENT \<longrightarrow>
        parse_const_decl U n tokens i
          = Inl (ParseError (Expected IDENT (tok_line (tokens ! Suc i))
                  (tok_col (tokens ! Suc i)) (tok_kind (tokens ! Suc i)))))
   \<and> (i < length tokens \<and> tok_kind (tokens ! i) \<noteq> RBRACE
        \<and> tok_kind (tokens ! i) \<noteq> IDENT \<longrightarrow>
        parse_dict_loop U (Suc n) tokens i items
          = Inl (ParseError (Expected IDENT (tok_line (tokens ! i))
                  (tok_col (tokens ! i)) (tok_kind (tokens ! i)))))
   \<and> (Suc (Suc i) < length tokens \<and> tok_kind (tokens ! i) = QMARK
        \<and> tok_kind (tokens ! Suc i) = LBRACKET
        \<and> tok_kind (tokens ! Suc (Suc i)) \<noteq> IDENT \<longrightarrow>
        parse_const_ref tokens i
          = Inl (ParseError (Expected IDENT (tok_line (tokens ! Suc (Suc i)))
                  (tok_col (tokens ! Suc (Suc i))) (tok_kind (tokens ! Suc (Suc i))))))"
proof -
  have lexer: "\<forall>t \<in> set toks. (tok_value t = lit ''array'' \<longrightarrow> tok_kind t = KW_ARRAY)
      \<and> (tok_value t = lit ''var'' \<longrightarrow> tok_kind t = KW_VAR)"
    if "tokenize U src = Inr toks"
    using tokenize_keywords [OF that] by blast
  have names: "lit ''array'' \<notin> set (program_names prog)
      \<and> lit ''var'' \<notin> set (program_names prog)"
    if t: "tokenize U src = Inr toks" and p: "parse_program U toks = Inr prog" for prog
  proof -
    have "w \<noteq> lit ''array'' \<and> w \<noteq> lit ''var''" if "w \<in> ident_values toks" for w
    proof -
      from that obtain t where "t \<in> set toks" "tok_kind t = IDENT" "tok_value t = w"
        by (auto simp: ident_values_def)
      with lexer [OF t] show ?thesis by auto
    qed
    with parse_program_names [OF p] show ?thesis by blast
  qed
  have decl: "parse_const_decl U n tokens i
      = Inl (ParseError (Expected IDENT (tok_line (tokens ! Suc i))
              (tok_col (tokens ! Suc i)) (tok_kind (tokens ! Suc i))))"
    if "Suc i < length tokens \<and> tok_kind (tokens ! i) = KW_VAR
        \<and> tok_kind (tokens ! Suc i) \<noteq> IDENT"
    using that by (simp add: parse_const_decl_def expect_same expect_other bind_def)
  have key: "parse_dict_loop U (Suc n) tokens i items
      = Inl (ParseError (Expected IDENT (tok_line (tokens ! i))
              (tok_col (tokens ! i)) (tok_kind (tokens ! i))))"
    if "i < length tokens \<and> tok_kind (tokens ! i) \<noteq> RBRACE \<and> tok_kind (tokens ! i) \<noteq> IDENT"
    using that by (simp add: expect_other bind_def Parser_peek_def)
  have ref: "parse_const_ref tokens i
      = Inl (ParseError (Expected IDENT (tok_line (tokens ! Suc (Suc i)))
              (tok_col (tokens ! Suc (Suc i))) (tok_kind (tokens ! Suc (Suc i)))))"
    if "Suc (Suc i) < length tokens \<and> tok_kind (tokens ! i) = QMARK
        \<and> tok_kind (tokens ! Suc i) = LBRACKET
        \<and> tok_kind (tokens ! Suc (Suc i)) \<noteq> IDENT"
    using that by (simp add: parse_const_ref_def expect_same expect_other bind_def)
  show ?thesis
    using lexer names decl key ref by blast
qed


theorem C10_reserved_words_witness:
  "parse_const_ref [mkToken QMARK (lit ''?'') 1 1, mkToken LBRACKET (lit ''['') 1 2,
       mkToken KW_VAR (lit ''var'') 1 3, mkToken RBRACKET (lit '']'') 1 6, mkToken EOF [] 1 7] 0
     = Inl (ParseError (Expected IDENT 1 3 KW_VAR))
   \<and> translate empty_db (lit ''?[var]'') = Inl (ParseError (Expected IDENT 1 3 KW_VAR))
   \<and> translate empty_db (lit ''{ array = 0x1; }'') = Inl (ParseError (Expected IDENT 1 3 KW_ARRAY))
   \<and> translate empty_db (lit ''var var = 0x1 ?[var]'')
     = Inl (ParseError (Expected IDENT 1 5 KW_VAR))"
proof -
  let ?toks = "[mkToken QMARK (lit ''?'') 1 1, mkToken LBRACKET (lit ''['') 1 2,
       mkToken KW_VAR (lit ''var'') 1 3, mkToken RBRACKET (lit '']'') 1 6, mkToken EOF [] 1 7]"
  have h: "Suc (Suc 0) < length ?toks \<and> tok_kind (?toks ! 0) = QMARK
      \<and> tok_kind (?toks ! Suc 0) = LBRACKET \<and> tok_kind (?toks ! Suc (Suc 0)) \<noteq> IDENT"
    by (simp add: mkToken_def)
  from C10_reserved_words [of empty_db "lit ''?[var]''" ?toks 0 ?toks 0 "[]"] h
  have "parse_const_ref ?toks 0
      = Inl (ParseError (Expected IDENT (tok_line (?toks ! Suc (Suc 0)))
              (tok_col (?toks ! Suc (Suc 0))) (tok_kind (?toks ! Suc (Suc 0)))))"
    by blast
  then have 1: "parse_const_ref ?toks 0 = Inl (ParseError (Expected IDENT 1 3 KW_VAR))"
    by (simp add: mkToken_def)
  have 2: "translate empty_db (lit ''?[var]'') = Inl (ParseError (Expected IDENT 1 3 KW_VAR))"
    by code_simp
  have 3: "translate empty_db (lit ''{ array = 0x1; }'')
      = Inl (ParseError (Expected IDENT 1 3 KW_ARRAY))"
    by code_simp
  have 4: "translate empty_db (lit ''var var = 0x1 ?[var]'')
      = Inl (ParseError (Expected IDENT 1 5 KW_VAR))"
    by code_simp
  from 1 2 3 4 show ?thesis by blast
qed

section \<open>The emitted text\<close>

text \<open>
  The keys of an evaluated value are names of the program, and so values of identifier
  tokens: runs of alphanumeric characters, without a newline.
\<close>

lemma dict_set_dict_keys:
  "set (dict_keys (dict_set d k v)) \<subseteq> insert k (set (val_keys v) \<union> set (dict_keys d))"
  by (induction d k v rule: dict_set.induct) auto

lemma map_of_val_keys: "map_of cs name = Some v \<Longrightarrow> set (val_keys v) \<subseteq> set (dict_keys cs)"
  by (induction cs) (auto split: if_splits)

lemma eval_value_keys:
  "eval_value cs e = Inr r \<Longrightarrow> set (val_keys r) \<subseteq> set (node_names e) \<union> set (dict_keys cs)"
  "eval_items cs es = Inr rs \<Longrightarrow> set (vals_keys rs) \<subseteq> set (nodes_names es) \<union> set (dict_keys cs)"
  "eval_map cs its acc = Inr d \<Longrightarrow>
     set (dict_keys d) \<subseteq> set (items_names its) \<union> set (dict_keys acc) \<union> set (dict_keys cs)"
proof (induction cs e and cs es and cs its acc arbitrary: r and rs and d
    rule: eval_value_eval_items_eval_map.induct)
  case (4 c name)
  then show ?case
    using map_of_val_keys [of c name r]
    by (auto split: if_splits option.splits)
next
  case (8 c key e items result)
  from "8.prems" obtain v where v: "eval_value c e = Inr v"
    and rest: "eval_map c items (dict_set result key v) = Inr d"
    by (auto simp: bind_def split: sum.splits)
  from "8.IH"(1) [OF v] "8.IH"(2) [OF rest] dict_set_dict_keys [of result key v]
  show ?case by auto
qed (auto simp: bind_def split: sum.splits)

lemma eval_decls_dict_keys:
  "eval_decls cs decls = Inr cs' \<Longrightarrow>
   set (dict_keys cs') \<subseteq> set (dict_keys cs)
     \<union> (\<Union>d \<in> set decls. insert (decl_name d) (set (node_names (decl_value d))))"
proof (induction cs decls rule: eval_decls.induct)
  case (1 c)
  then show ?case by simp
next
  case (2 c name e decls)
  from "2.prems" obtain v where v: "eval_value c e = Inr v"
    and nd: "\<not> dict_contains c name"
    and rest: "eval_decls (dict_set c name v) decls = Inr cs'"
    by (auto simp: bind_def split: if_splits sum.splits)
  from "2.IH" [OF nd rest] eval_value_keys(1) [OF v] dict_set_dict_keys [of c name v]
  show ?case by auto
qed

lemma eval_program_keys:
  assumes "eval_program prog = Inr r"
  shows "set (val_keys r) \<subseteq> set (program_names prog)"
proof -
  obtain decls root where prog: "prog = ProgramNode decls root" by (cases prog)
  with assms obtain cs where cs: "eval_decls [] decls = Inr cs"
    and r: "eval_value cs root = Inr r"
    by (auto simp: bind_def split: sum.splits)
  from eval_decls_dict_keys [OF cs] eval_value_keys(1) [OF r] show ?thesis
    by (auto simp: prog)
qed

lemma pipeline_keys:
  assumes "tokenize U src = Inr toks" and "parse_program U toks = Inr prog"
    and "eval_program prog = Inr r" and "k \<in> set (val_keys r)"
  shows "list_all (isalnum U) k \<and> 10 \<notin> set k"
proof -
  from eval_program_keys [OF assms(3)] assms(4) parse_program_names [OF assms(2)]
  have "k \<in> ident_values toks" by blast
  then obtain t where "t \<in> set toks" "tok_kind t = IDENT" "tok_value t = k"
    by (auto simp: ident_values_def)
  with tokenize_keywords [OF assms(1)] have a: "list_all (isalnum U) k" by blast
  have "\<not> isalnum U 10"
    by (simp add: isalnum_def isalpha_def isdecimal_def decimal_value_def isdigit_def
        isnumeric_def)
  with a show ?thesis by (auto simp: list_all_iff)
qed


lemma emit_parts_length: "emit_parts d = Inr ls \<Longrightarrow> length ls = length d"
  by (induction d arbitrary: ls) (auto simp: bind_Inr_iff)

lemma emit_parts_last: "emit_parts d = Inr ls \<Longrightarrow> l \<in> set ls \<Longrightarrow> l \<noteq> [] \<and> last l \<noteq> 10"
proof (induction d arbitrary: ls)
  case Nil
  then show ?case by simp
next
  case (Cons kv d)
  obtain k v where kv: "kv = (k, v)" by (cases kv)
  from Cons.prems(1) obtain s ps where s: "emit_value v = Inr s" and ps: "emit_parts d = Inr ps"
    and ls: "ls = (k @ lit '' = '' @ s) # ps"
    by (auto simp: kv bind_Inr_iff)
  from Cons.prems(2) ls consider "l = k @ lit '' = '' @ s" | "l \<in> set ps" by auto
  then show ?case
  proof cases
    case 1
    then show ?thesis using emit_value_last [OF s] by simp
  next
    case 2
    with Cons.IH [OF ps] show ?thesis .
  qed
qed

lemma emit_root_newline:
  assumes "emit_root r = Inr out"
  shows "out = [] \<or> (\<exists>body. out = body @ [10] \<and> body \<noteq> [] \<and> last body \<noteq> 10)"
proof (cases r)
  case (VDict d)
  with assms obtain ls where ls: "emit_parts d = Inr ls"
    and out: "out = (if ls \<noteq> [] then join [10] ls @ [10] else [])"
    by (auto simp: bind_Inr_iff emit_lines_parts)
  show ?thesis
  proof (cases "ls = []")
    case True
    with out show ?thesis by simp
  next
    case False
    then have "last ls \<in> set ls" by simp
    from emit_parts_last [OF ls this] have "last ls \<noteq> []" "last (last ls) \<noteq> 10"
      by simp_all
    with False have "join [10] ls \<noteq> [] \<and> last (join [10] ls) \<noteq> 10"
      using join_last [of ls "[10]"] by simp
    moreover have "out = join [10] ls @ [10]"
      using out False by simp
    ultimately show ?thesis by blast
  qed
next
  case (VInt n)
  with assms obtain s where s: "emit_value r = Inr s" and out: "out = lit ''value = '' @ s @ [10]"
    by (auto simp: bind_Inr_iff)
  have "out = (lit ''value = '' @ s) @ [10]" "lit ''value = '' @ s \<noteq> []"
    "last (lit ''value = '' @ s) \<noteq> 10"
    using out emit_value_last [OF s] by simp_all
  then show ?thesis by blast
next
  case (VList xs)
  with assms obtain s where s: "emit_value r = Inr s" and out: "out = lit ''value = '' @ s @ [10]"
    by (auto simp: bind_Inr_iff)
  have "out = (lit ''value = '' @ s) @ [10]" "lit ''value = '' @ s \<noteq> []"
    "last (lit ''value = '' @ s) \<noteq> 10"
    using out emit_value_last [OF s] by simp_all
  then show ?thesis by blast
qed

lemma emit_root_ok_iff:
  "(\<exists>out. emit_root r = Inr out) \<longleftrightarrow> (\<forall>n \<in> set (val_ints r). \<bar>n\<bar> < 10 ^ int_max_str_digits)"
proof
  assume "\<exists>out. emit_root r = Inr out"
  then obtain out where out: "emit_root r = Inr out" ..
  show "\<forall>n \<in> set (val_ints r). \<bar>n\<bar> < 10 ^ int_max_str_digits"
  proof (cases r)
    case (VDict d)
    with out obtain ls where "emit_parts d = Inr ls"
      by (auto simp: bind_Inr_iff emit_lines_parts)
    from emit_ok(4) [OF this] VDict show ?thesis by simp
  next
    case (VInt n)
    with out obtain s where "emit_value r = Inr s" by (auto simp: bind_Inr_iff)
    from emit_ok(1) [OF this] show ?thesis .
  next
    case (VList xs)
    with out obtain s where "emit_value r = Inr s" by (auto simp: bind_Inr_iff)
    from emit_ok(1) [OF this] show ?thesis .
  qed
next
  assume a: "\<forall>n \<in> set (val_ints r). \<bar>n\<bar> < 10 ^ int_max_str_digits"
  show "\<exists>out. emit_root r = Inr out"
  proof (cases "emit_root r")
    case (Inl e)
    from emit_root_error [OF this] a show ?thesis by (auto simp: not_le [symmetric])
  next
    case (Inr out)
    then show ?thesis by blast
  qed
qed

text \<open>
  Claim C8. The text emitted for an empty root map is empty. The text emitted for any
  other root map ends with a newline that no second newline precedes. A root that is not
  a map is emitted as \<open>value = \<close>, its rendering and a newline; the rendering is not
  empty and does not end with a newline, and the line has no newline inside when no key
  inside the value has one, which holds for every value that the lexer, the parser and
  the evaluator produce from a text. So every text that \<open>translate\<close> returns is empty
  or ends with exactly one newline. A text is emitted for every value except those that
  hold a number of more than 4300 digits, where \<open>str\<close> raises \<open>ValueError\<close>.
\<close>

theorem C8_trailing_newline:
  "emit_root (VDict []) = Inr []
   \<and> (d \<noteq> [] \<and> emit_root (VDict d) = Inr out1 \<longrightarrow>
        (\<exists>body. out1 = body @ [10] \<and> body \<noteq> [] \<and> last body \<noteq> 10))
   \<and> (\<not> is_dict v \<longrightarrow>
        (\<forall>s. emit_value v = Inr s \<longrightarrow>
           emit_root v = Inr (lit ''value = '' @ s @ [10])
           \<and> s \<noteq> [] \<and> last s \<noteq> 10
           \<and> ((\<forall>k \<in> set (val_keys v). 10 \<notin> set k) \<longrightarrow> 10 \<notin> set (lit ''value = '' @ s)))
        \<and> (\<forall>e. emit_value v = Inl e \<longrightarrow> emit_root v = Inl e))
   \<and> (tokenize U src = Inr toks \<and> parse_program U toks = Inr prog \<and> eval_program prog = Inr v
        \<longrightarrow> (\<forall>k \<in> set (val_keys v). 10 \<notin> set k))
   \<and> (translate U src = Inr out \<longrightarrow>
        out = [] \<or> (\<exists>body. out = body @ [10] \<and> body \<noteq> [] \<and> last body \<noteq> 10))
   \<and> ((\<exists>out. emit_root v = Inr out)
        \<longleftrightarrow> (\<forall>n \<in> set (val_ints v). \<bar>n\<bar> < 10 ^ int_max_str_digits))
   \<and> (emit_root v = Inl e \<longrightarrow> e = ValueError)
   \<and> int_max_str_digits = 4300"
proof -
  have 1: "emit_root (VDict []) = Inr []" by (simp add: bind_def)
  have 2: "d \<noteq> [] \<and> emit_root (VDict d) = Inr out1 \<longrightarrow>
      (\<exists>body. out1 = body @ [10] \<and> body \<noteq> [] \<and> last body \<noteq> 10)"
  proof
    assume a: "d \<noteq> [] \<and> emit_root (VDict d) = Inr out1"
    then obtain ls where ls: "emit_parts d = Inr ls"
      and out: "out1 = (if ls \<noteq> [] then join [10] ls @ [10] else [])"
      by (auto simp: bind_Inr_iff emit_lines_parts)
    from emit_parts_length [OF ls] a have "ls \<noteq> []" by auto
    with out have "out1 \<noteq> []" by simp
    with emit_root_newline [of "VDict d" out1] a
    show "\<exists>body. out1 = body @ [10] \<and> body \<noteq> [] \<and> last body \<noteq> 10"
      by blast
  qed
  have 3: "\<not> is_dict v \<longrightarrow>
      (\<forall>s. emit_value v = Inr s \<longrightarrow>
         emit_root v = Inr (lit ''value = '' @ s @ [10])
         \<and> s \<noteq> [] \<and> last s \<noteq> 10
         \<and> ((\<forall>k \<in> set (val_keys v). 10 \<notin> set k) \<longrightarrow> 10 \<notin> set (lit ''value = '' @ s)))
      \<and> (\<forall>e. emit_value v = Inl e \<longrightarrow> emit_root v = Inl e)"
  proof
    assume nd: "\<not> is_dict v"
    then have root: "emit_root v = bind (emit_value v) (\<lambda>s. Inr (lit ''value = '' @ s @ [10]))"
      by (cases v) simp_all
    have "emit_root v = Inr (lit ''value = '' @ s @ [10])
        \<and> s \<noteq> [] \<and> last s \<noteq> 10
        \<and> ((\<forall>k \<in> set (val_keys v). 10 \<notin> set k) \<longrightarrow> 10 \<notin> set (lit ''value = '' @ s))"
      if s: "emit_value v = Inr s" for s
    proof -
      have "emit_root v = Inr (lit ''value = '' @ s @ [10])"
        by (simp add: root s bind_def)
      moreover have "(\<forall>k \<in> set (val_keys v). 10 \<notin> set k) \<longrightarrow> 10 \<notin> set (lit ''value = '' @ s)"
        using emit_no_newline(1) [OF s] by (simp add: lit_def)
      ultimately show ?thesis
        using emit_value_last [OF s] by blast
    qed
    moreover have "emit_root v = Inl e" if "emit_value v = Inl e" for e
      by (simp add: root that bind_def)
    ultimately show "(\<forall>s. emit_value v = Inr s \<longrightarrow>
         emit_root v = Inr (lit ''value = '' @ s @ [10])
         \<and> s \<noteq> [] \<and> last s \<noteq> 10
         \<and> ((\<forall>k \<in> set (val_keys v). 10 \<notin> set k) \<longrightarrow> 10 \<notin> set (lit ''value = '' @ s)))
      \<and> (\<forall>e. emit_value v = Inl e \<longrightarrow> emit_root v = Inl e)"
      by blast
  qed
  have 4: "tokenize U src = Inr toks \<and> parse_program U toks = Inr prog \<and> eval_program prog = Inr v
      \<longrightarrow> (\<forall>k \<in> set (val_keys v). 10 \<notin> set k)"
    using pipeline_keys [of U src toks prog v] by blast
  have 5: "translate U src = Inr out \<longrightarrow>
      out = [] \<or> (\<exists>body. out = body @ [10] \<and> body \<noteq> [] \<and> last body \<noteq> 10)"
  proof
    assume "translate U src = Inr out"
    then obtain r where "emit_root r = Inr out"
      by (auto simp: translate_def bind_Inr_iff)
    then show "out = [] \<or> (\<exists>body. out = body @ [10] \<and> body \<noteq> [] \<and> last body \<noteq> 10)"
      by (rule emit_root_newline)
  qed
  have 6: "(\<exists>out. emit_root v = Inr out)
      \<longleftrightarrow> (\<forall>n \<in> set (val_ints v). \<bar>n\<bar> < 10 ^ int_max_str_digits)"
    by (rule emit_root_ok_iff)
  have 7: "emit_root v = Inl e \<longrightarrow> e = ValueError"
    using emit_root_error [of v e] by blast
  have 8: "int_max_str_digits = 4300"
    by (simp add: int_max_str_digits_def)
  show ?thesis
    by (intro conjI) (rule 1, rule 2, rule 3, rule 4, rule 5, rule 6, rule 7, rule 8)
qed

theorem C8_trailing_newline_witness:
  "emit_root (VDict []) = Inr []
   \<and> emit_root (VDict [(lit ''a'', VInt 1)]) = Inr (lit ''a = 1'' @ [10])
   \<and> emit_root (VList [VInt 1, VInt 2]) = Inr (lit ''value = [1, 2]'' @ [10])
   \<and> 10 \<notin> set (lit ''value = [1, 2]'')
   \<and> translate empty_db (lit ''array(0x1, 0x2, 0x3)'') = Inr (lit ''value = [1, 2, 3]'' @ [10])
   \<and> translate empty_db (lit ''{}'') = Inr []"
proof -
  let ?v = "VList [VInt 1, VInt 2]"
  note c8 = C8_trailing_newline [of "[(lit ''a'', VInt 1)]" "lit ''a = 1'' @ [10]" ?v
      empty_db "[]" "[]" "ProgramNode [] (NumberNode 0)" "[]" ValueError]
  have s: "emit_value ?v = Inr (lit ''[1, 2]'')"
    by (simp add: lit_def bind_def str_of_int_def int_max_str_digits_def dec_digits.simps)
  have nd: "\<not> is_dict ?v" by simp
  have keys: "\<forall>k \<in> set (val_keys ?v). 10 \<notin> set k" by simp
  from c8 have 1: "emit_root (VDict []) = Inr []" by blast
  from c8 nd s keys have "emit_root ?v = Inr (lit ''value = '' @ lit ''[1, 2]'' @ [10])
      \<and> 10 \<notin> set (lit ''value = '' @ lit ''[1, 2]'')"
    by blast
  then have 2: "emit_root ?v = Inr (lit ''value = [1, 2]'' @ [10])"
    "10 \<notin> set (lit ''value = [1, 2]'')"
    by (simp_all add: lit_def)
  have 3: "emit_root (VDict [(lit ''a'', VInt 1)]) = Inr (lit ''a = 1'' @ [10])"
    by (simp add: lit_def bind_def str_of_int_def int_max_str_digits_def dec_digits.simps)
  have 4: "translate empty_db (lit ''array(0x1, 0x2, 0x3)'')
      = Inr (lit ''value = [1, 2, 3]'' @ [10])"
    by code_simp
  have 5: "translate empty_db (lit ''{}'') = Inr []"
    by code_simp
  from 1 2 3 4 5 show ?thesis by blast
qed

end
